theory Spec2Isabelle
  imports Main
begin

section \<open>dcrps: listing and rendering Decred Go processes\<close>

text \<open>
  A shallow embedding of \<^verbatim>\<open>main.go\<close>. Go's \<^verbatim>\<open>int\<close> is modelled as \<open>int\<close>: the
  program never does arithmetic on process identifiers, it only compares and prints them.
  Strings are byte lists, so \<open>length\<close> is Go's \<^verbatim>\<open>len\<close>.
\<close>

subsection \<open>Process records\<close>

text \<open>The fields of \<^verbatim>\<open>goprocess.P\<close>, as the program reads them.\<close>

record goprocess_P =
  PID :: int
  PPID :: int
  Exec :: string
  Path :: string
  BuildVersion :: string
  Agent :: bool

definition dcrPrefix :: string where
  "dcrPrefix = ''dcr''"

text \<open>\<^verbatim>\<open>strings.HasPrefix(s, prefix)\<close>: \<^verbatim>\<open>len(s) >= len(prefix) && s[:len(prefix)] == prefix\<close>.\<close>

definition HasPrefix :: "string \<Rightarrow> string \<Rightarrow> bool" where
  "HasPrefix s pre = (length pre \<le> length s \<and> take (length pre) s = pre)"

text \<open>The records that survive the \<^verbatim>\<open>continue\<close> guard of every loop over \<^verbatim>\<open>ps\<close>.\<close>

definition isDcr :: "goprocess_P \<Rightarrow> bool" where
  "isDcr p = HasPrefix (Exec p) dcrPrefix"

subsection \<open>The snapshot index \<^verbatim>\<open>pstree\<close>\<close>

text \<open>
  \<^verbatim>\<open>pstree\<close> is a \<^verbatim>\<open>map[int][]goprocess.P\<close>. Reading a missing key of a Go map gives the
  zero value, here the nil slice: \<open>bucket\<close> is the read \<^verbatim>\<open>pstree[k]\<close>.
\<close>

type_synonym pstree = "int \<rightharpoonup> goprocess_P list"

definition bucket :: "pstree \<Rightarrow> int \<Rightarrow> goprocess_P list" where
  "bucket m k = (case m k of None \<Rightarrow> [] | Some b \<Rightarrow> b)"

text \<open>
  The first loop of \<^verbatim>\<open>displayProcessTree\<close>:
  \<^verbatim>\<open>pstree[p.PPID] = append(pstree[p.PPID], p)\<close> for every record that has the prefix.
\<close>

fun groupByPPID :: "goprocess_P list \<Rightarrow> pstree \<Rightarrow> pstree" where
  "groupByPPID [] m = m"
| "groupByPPID (p # ps) m =
     (if \<not> HasPrefix (Exec p) dcrPrefix then groupByPPID ps m
      else groupByPPID ps (m(PPID p \<mapsto> bucket m (PPID p) @ [p])))"

subsection \<open>Printing integers\<close>

text \<open>
  \<^verbatim>\<open>strconv.Itoa\<close>: the decimal digits of the value, most significant first, after a
  minus sign when it is negative.
\<close>

fun digits :: "nat \<Rightarrow> string" where
  "digits n =
     (if n < 10 then [''0123456789'' ! n]
      else digits (n div 10) @ [''0123456789'' ! (n mod 10)])"

declare digits.simps [simp del]

definition Itoa :: "int \<Rightarrow> string" where
  "Itoa i = (if i < 0 then CHR ''-'' # digits (nat (- i)) else digits (nat i))"

subsection \<open>The printed tree\<close>

text \<open>
  A node of \<^verbatim>\<open>treeprint\<close>: its meta value (absent for a plain branch), its value (an
  \<^verbatim>\<open>interface{}\<close> that the program fills with a string or an int) and its child nodes in
  the order they were added. \<^verbatim>\<open>AddBranch v\<close> appends a node with value \<open>v\<close> to the
  receiver's children and returns it; \<^verbatim>\<open>AddMetaBranch m v\<close> does the same with meta
  value \<open>m\<close>.
\<close>

datatype tvalue = IntValue int | StrValue string

datatype node = Node (Meta: "string option") (Value: tvalue) (Nodes: "node list")

text \<open>
  \<^verbatim>\<open>seen\<close> is a \<^verbatim>\<open>map[int]bool\<close> that is only read at a key and set to true at a key;
  a missing key reads as false.
\<close>

type_synonym seen_map = "int \<Rightarrow> bool"

text \<open>
  The branch that one call of \<^verbatim>\<open>constructProcessTree\<close> adds below its parent, given
  the children that the loop over the bucket will add to it.
\<close>

definition newBranch :: "int \<Rightarrow> goprocess_P \<Rightarrow> node list \<Rightarrow> node" where
  "newBranch ppid process kids =
     (if ppid \<noteq> PPID process then
        (let output = Itoa ppid @ '' ('' @ Exec process @ '')'' @ '' {'' @ BuildVersion process @ ''}''
         in if Agent process then Node (Some ''*'') (StrValue output) kids
            else Node None (StrValue output) kids)
      else Node None (IntValue ppid) kids)"

text \<open>
  \<^verbatim>\<open>constructProcessTree\<close> and its loop over \<^verbatim>\<open>pstree[ppid]\<close>. The source recurses with
  no bound of its own, so the model carries the depth of call stack it may still use:
  \<open>None\<close> is a run that would need a deeper stack, and that every run returns is a
  theorem below. A call returns the updated \<^verbatim>\<open>seen\<close>, the nodes it has appended to the
  children of \<^verbatim>\<open>tree\<close> (none when the guard returns early, one otherwise), and a log of
  the calls that passed the guard, each as the pair of the key \<^verbatim>\<open>ppid\<close> and the record
  \<^verbatim>\<open>process\<close>, in the order of the calls. The log is not in the source: it is there to
  state how often a key is expanded.
\<close>

type_synonym visit = "int \<times> goprocess_P"

fun constructProcessTree ::
    "nat \<Rightarrow> pstree \<Rightarrow> int \<Rightarrow> goprocess_P \<Rightarrow> seen_map \<Rightarrow> (seen_map \<times> visit list \<times> node list) option"
  and constructChildren ::
    "nat \<Rightarrow> pstree \<Rightarrow> goprocess_P list \<Rightarrow> seen_map \<Rightarrow> (seen_map \<times> visit list \<times> node list) option"
where
  "constructProcessTree 0 pt ppid process seen = None"
| "constructProcessTree (Suc d) pt ppid process seen =
     (if seen ppid then Some (seen, [], [])
      else case constructChildren d pt (bucket pt ppid) (seen(ppid := True)) of
             None \<Rightarrow> None
           | Some (seen', vs, kids) \<Rightarrow>
               Some (seen', (ppid, process) # vs, [newBranch ppid process kids]))"
| "constructChildren d pt [] seen = Some (seen, [], [])"
| "constructChildren d pt (process # rest) seen =
     (case constructProcessTree d pt (PID process) process seen of
        None \<Rightarrow> None
      | Some (seen1, vs1, ns1) \<Rightarrow>
          (case constructChildren d pt rest seen1 of
             None \<Rightarrow> None
           | Some (seen2, vs2, ns2) \<Rightarrow> Some (seen2, vs1 @ vs2, ns1 @ ns2)))"

text \<open>The second loop of \<^verbatim>\<open>displayProcessTree\<close>, over the whole enumeration.\<close>

fun displayLoop ::
    "nat \<Rightarrow> pstree \<Rightarrow> goprocess_P list \<Rightarrow> seen_map \<Rightarrow> (seen_map \<times> visit list \<times> node list) option"
where
  "displayLoop d pt [] seen = Some (seen, [], [])"
| "displayLoop d pt (p # ps) seen =
     (if \<not> HasPrefix (Exec p) dcrPrefix then displayLoop d pt ps seen
      else case constructProcessTree d pt (PPID p) p seen of
             None \<Rightarrow> None
           | Some (seen1, vs1, ns1) \<Rightarrow>
               (case displayLoop d pt ps seen1 of
                  None \<Rightarrow> None
                | Some (seen2, vs2, ns2) \<Rightarrow> Some (seen2, vs1 @ vs2, ns1 @ ns2)))"

text \<open>
  \<^verbatim>\<open>displayProcessTree\<close>. \<open>ps\<close> is what \<^verbatim>\<open>goprocess.FindAll()\<close> returned, \<open>pstree0\<close> the
  value of the package variable \<^verbatim>\<open>pstree\<close> when the function is entered, and \<open>toString\<close>
  the method \<^verbatim>\<open>String\<close> of the \<^verbatim>\<open>treeprint\<close> library, which is not part of this
  program. The result holds the package variable on return, the final \<^verbatim>\<open>seen\<close>, the
  log, the tree and the bytes written to standard output.
\<close>

record display_result =
  pstree_after :: pstree
  seen_after :: seen_map
  visits :: "visit list"
  tree :: node
  stdout :: string

definition displayProcessTree ::
    "(node \<Rightarrow> string) \<Rightarrow> nat \<Rightarrow> pstree \<Rightarrow> goprocess_P list \<Rightarrow> display_result option" where
  "displayProcessTree toString d pstree0 ps =
     (let pstree = groupByPPID ps Map.empty in
      case displayLoop d pstree ps (\<lambda>k. False) of
        None \<Rightarrow> None
      | Some (seen, vs, ns) \<Rightarrow>
          (let tree = Node None (StrValue ''...'') ns in
           Some \<lparr>pstree_after = pstree, seen_after = seen, visits = vs, tree = tree,
                 stdout = toString tree @ [CHR 0x0A]\<rparr>))"

text \<open>The nodes below a list of nodes, parents before children, and their number.\<close>

fun preorder :: "node \<Rightarrow> node list" where
  "preorder (Node m v ks) = Node m v ks # concat (map preorder ks)"

definition rendered :: "node list \<Rightarrow> node list" where
  "rendered ns = concat (map preorder ns)"

text \<open>The meta value and the value that \<open>newBranch\<close> gives the node of a visit.\<close>

definition visitValue :: "visit \<Rightarrow> tvalue" where
  "visitValue v =
     (case v of (k, p) \<Rightarrow>
        if k = PPID p then IntValue k
        else StrValue (Itoa k @ '' ('' @ Exec p @ '')'' @ '' {'' @ BuildVersion p @ ''}''))"

definition visitMeta :: "visit \<Rightarrow> string option" where
  "visitMeta v = (case v of (k, p) \<Rightarrow> if k \<noteq> PPID p \<and> Agent p then Some ''*'' else None)"

subsection \<open>List mode\<close>

text \<open>The closure \<^verbatim>\<open>max\<close> of \<^verbatim>\<open>processes\<close>, and \<^verbatim>\<open>len\<close> as an int.\<close>

definition gomax :: "int \<Rightarrow> int \<Rightarrow> int" where
  "gomax i j = (if i > j then i else j)"

definition len :: "string \<Rightarrow> int" where
  "len s = int (length s)"

record widths =
  maxPID :: int
  maxPPID :: int
  maxExec :: int
  maxVersion :: int

fun widthLoop :: "goprocess_P list \<Rightarrow> widths \<Rightarrow> widths" where
  "widthLoop [] w = w"
| "widthLoop (p # dcrPs) w =
     widthLoop dcrPs
       \<lparr>maxPID = gomax (maxPID w) (len (Itoa (PID p))),
        maxPPID = gomax (maxPPID w) (len (Itoa (PPID p))),
        maxExec = gomax (maxExec w) (len (Exec p)),
        maxVersion = gomax (maxVersion w) (len (BuildVersion p))\<rparr>"

definition columnWidths :: "goprocess_P list \<Rightarrow> widths" where
  "columnWidths dcrPs = widthLoop dcrPs \<lparr>maxPID = 0, maxPPID = 0, maxExec = 0, maxVersion = 0\<rparr>"

definition fmtString :: "widths \<Rightarrow> string" where
  "fmtString w =
     ''%'' @ Itoa (maxPID w) @ ''d %'' @ Itoa (maxPPID w) @ ''d'' @
     '' %'' @ Itoa (maxExec w) @ ''s %1s %'' @ Itoa (maxVersion w) @ ''s %s'' @ [CHR 0x0A]"

text \<open>
  \<^verbatim>\<open>processes\<close>: one call of \<^verbatim>\<open>fmt.Printf\<close> for each record with the prefix, given here
  as the format string and the six arguments.
\<close>

datatype printf_arg = IntArg int | StrArg string

definition processes :: "goprocess_P list \<Rightarrow> (string \<times> printf_arg list) list" where
  "processes ps =
     (let dcrPs = filter (\<lambda>p. HasPrefix (Exec p) dcrPrefix) ps;
          w = columnWidths dcrPs
      in map (\<lambda>p. (fmtString w,
                    [IntArg (PID p), IntArg (PPID p), StrArg (Exec p),
                     StrArg (if Agent p then ''*'' else '' ''),
                     StrArg (BuildVersion p), StrArg (Path p)])) dcrPs)"

subsection \<open>The name table and the command line\<close>

text \<open>\<^verbatim>\<open>init\<close>: the table \<^verbatim>\<open>nameToPid\<close>, from what \<^verbatim>\<open>goprocess.FindAll()\<close> returned.\<close>

fun initLoop :: "goprocess_P list \<Rightarrow> (string \<rightharpoonup> int) \<Rightarrow> (string \<rightharpoonup> int)" where
  "initLoop [] nameToPid = nameToPid"
| "initLoop (p # ps) nameToPid =
     (if \<not> HasPrefix (Exec p) dcrPrefix then initLoop ps nameToPid
      else case nameToPid (Exec p) of
             Some found \<Rightarrow> initLoop ps (nameToPid(Exec p \<mapsto> - 1))
           | None \<Rightarrow> initLoop ps (nameToPid(Exec p \<mapsto> PID p)))"

definition init_nameToPid :: "goprocess_P list \<Rightarrow> (string \<rightharpoonup> int)" where
  "init_nameToPid ps = initLoop ps Map.empty"

definition helpText :: string where
  \<open>helpText =
    ''dcrps is a tool to list and diagnose Decred Go processes.'' @ [CHR 0x0A] @
    [CHR 0x0A] @
    ''dcrps <"help"|"tree">'' @ [CHR 0x0A] @
    ''dcrps <cmd> <exec|pid|addr> ...'' @ [CHR 0x0A] @
    ''dcrps <exec|pid> # displays process info'' @ [CHR 0x0A] @
    [CHR 0x0A] @
    ''Commands with no argument:'' @ [CHR 0x0A] @
    ''    help        Displays this message.'' @ [CHR 0x0A] @
    ''    tree        Displays process tree.'' @ [CHR 0x0A] @
    [CHR 0x0A] @
    ''Commands with <exec|pid|addr> argument:'' @ [CHR 0x0A] @
    ''    stack       Prints the stack trace.'' @ [CHR 0x0A] @
    ''    gc          Runs the garbage collector and blocks until successful.'' @ [CHR 0x0A] @
    ''    setgc'' @ [CHR 0x09] @ ''    Sets the garbage collection target percentage.'' @ [CHR 0x0A] @
    ''    memstats    Prints the allocation and garbage collection stats.'' @ [CHR 0x0A] @
    ''    version     Prints the Go version used to build the program.'' @ [CHR 0x0A] @
    ''    stats       Prints the vital runtime stats.'' @ [CHR 0x0A] @
    ''    trace       Runs the runtime tracer for 5 secs and launches "go tool trace".'' @ [CHR 0x0A] @
    ''    pprof-heap  Reads the heap profile and launches "go tool pprof".'' @ [CHR 0x0A] @
    ''    pprof-cpu   Reads the CPU profile and launches "go tool pprof".'' @ [CHR 0x0A] @
    [CHR 0x0A] @
    ''All commands with a <exec|pid|addr> argument require the agent running on the Go'' @ [CHR 0x0A] @
    ''process. The symbol "*" next to the process name indicates the process runs the'' @ [CHR 0x0A] @
    ''agent.''\<close>

text \<open>
  \<^verbatim>\<open>strconv.Atoi\<close> for a 64-bit \<^verbatim>\<open>int\<close>: an optional sign, then one or more decimal
  digits and nothing else, and a value that fits; \<open>None\<close> is the error.
\<close>

definition isDigit :: "char \<Rightarrow> bool" where
  "isDigit c = (c \<in> set ''0123456789'')"

definition digitsValue :: "string \<Rightarrow> nat" where
  "digitsValue s = foldl (\<lambda>a c. 10 * a + (of_char c - 48)) 0 s"

definition Atoi :: "string \<Rightarrow> int option" where
  "Atoi s =
     (let neg = (s \<noteq> [] \<and> hd s = CHR ''-'');
          body = (if s \<noteq> [] \<and> (hd s = CHR ''-'' \<or> hd s = CHR ''+'') then tl s else s)
      in if body = [] \<or> \<not> list_all isDigit body then None
         else (let v = (if neg then - int (digitsValue body) else int (digitsValue body))
               in if v < - (2 ^ 63) \<or> 2 ^ 63 - 1 < v then None else Some v))"

text \<open>
  What \<^verbatim>\<open>main\<close> does, as the list of its effects in order: the functions of this
  program that it calls, what it writes, and the exit status when it ends through
  \<^verbatim>\<open>os.Exit\<close> (a run that returns from \<^verbatim>\<open>main\<close> has no \<open>Exit\<close> and ends with status 0).
\<close>

datatype effect =
    CallProcesses
  | CallProcessInfo int
  | CallDisplayProcessTree
  | CallCommand string string "string list"
  | Stdout string
  | Stderr string
  | Exit int

text \<open>\<^verbatim>\<open>usage\<close> ends the program: nothing of the caller runs after it.\<close>

definition usage :: "string \<Rightarrow> effect list" where
  "usage msg =
     (if msg \<noteq> [] then [Stdout (''dcrps: '' @ msg @ [CHR 0x0A])] else []) @
     [Stderr (helpText @ [CHR 0x0A]), Exit 1]"

text \<open>
  \<^verbatim>\<open>main\<close>. \<open>args\<close> is \<^verbatim>\<open>os.Args\<close>. The table \<^verbatim>\<open>cmds\<close> and the function
  \<^verbatim>\<open>targetToAddr\<close> are declared in files of the program that are not at hand, so both are
  parameters: \<open>cmds\<close> maps a command name to its handler, which takes the address and
  the parameters and returns the text of its error, if any; \<open>targetToAddr\<close> returns the
  text of its error or the address.
\<close>

definition main ::
    "(string \<rightharpoonup> (string \<Rightarrow> string list \<Rightarrow> string option)) \<Rightarrow> (string \<Rightarrow> string + string) \<Rightarrow>
     (string \<rightharpoonup> int) \<Rightarrow> string list \<Rightarrow> effect list" where
  "main cmds targetToAddr nameToPid args =
     (if length args < 2 then [CallProcesses]
      else
        (let cmd = args ! 1 in
         case Atoi cmd of
           Some pid \<Rightarrow> [CallProcessInfo pid]
         | None \<Rightarrow>
             if cmd = ''help'' then usage []
             else if cmd = ''tree'' then [CallDisplayProcessTree]
             else
               (case cmds cmd of
                  None \<Rightarrow>
                    (case nameToPid cmd of
                       Some pid \<Rightarrow> [CallProcessInfo pid]
                     | None \<Rightarrow> usage ''unknown subcommand'')
                | Some fn \<Rightarrow>
                    if length args < 3 then usage ''Missing PID or address.''
                    else
                      (case targetToAddr (args ! 2) of
                         Inl err \<Rightarrow>
                           [Stderr (''Couldn'' @ [CHR 0x27] @ ''t resolve addr or pid '' @ args ! 2 @
                                    '' to TCPAddress: '' @ err @ [CHR 0x0A]),
                            Exit 1]
                       | Inr addr \<Rightarrow>
                           (let params = (if length args > 3 then drop 3 args else [])
                            in CallCommand cmd addr params #
                               (case fn addr params of
                                  Some err \<Rightarrow> [Stderr (err @ [CHR 0x0A]), Exit 1]
                                | None \<Rightarrow> []))))))"

subsection \<open>Measures and predicates used in the statements\<close>

text \<open>The number of nodes below the top node of a tree.\<close>

definition nodeCount :: "node \<Rightarrow> nat" where
  "nodeCount t = length (rendered (Nodes t))"

text \<open>The keys of a finite universe that are not yet marked: the termination measure.\<close>

definition unseen :: "int set \<Rightarrow> seen_map \<Rightarrow> int set" where
  "unseen U seen = {k \<in> U. \<not> seen k}"

text \<open>
  A node that carries the composite label of a record of \<open>F\<close> whose own identifier
  differs from its parent's, with the star exactly when the record runs the agent.
\<close>

definition composite :: "goprocess_P set \<Rightarrow> node \<Rightarrow> bool" where
  "composite F c =
     (\<exists>p \<in> F. PID p \<noteq> PPID p \<and>
        Value c = StrValue (Itoa (PID p) @ '' ('' @ Exec p @ '')'' @ '' {'' @ BuildVersion p @ ''}'') \<and>
        Meta c = (if Agent p then Some ''*'' else None))"

text \<open>
  The claims speak of acyclic input. \<open>climbs n ps k target\<close> holds when following the
  parent links of \<open>ps\<close> from the identifier \<open>k\<close> reaches \<open>target\<close> in at most
  \<open>n\<close> steps; a list is acyclic when no record reaches its own identifier.
\<close>

fun climbs :: "nat \<Rightarrow> goprocess_P list \<Rightarrow> int \<Rightarrow> int \<Rightarrow> bool" where
  "climbs 0 ps k target = False"
| "climbs (Suc n) ps k target =
     list_ex (\<lambda>q. PID q = k \<and> (PPID q = target \<or> climbs n ps (PPID q) target)) ps"

definition acyclicParents :: "goprocess_P list \<Rightarrow> bool" where
  "acyclicParents ps = (\<not> list_ex (\<lambda>p. climbs (length ps) ps (PID p) (PID p)) ps)"

text \<open>
  A list in which no record is its own parent and no record's parent comes after it:
  a parent that is listed at all is listed before its children.
\<close>

fun parentsFirst :: "goprocess_P list \<Rightarrow> bool" where
  "parentsFirst [] = True"
| "parentsFirst (p # ps) =
     (PPID p \<noteq> PID p \<and> list_all (\<lambda>q. PID q \<noteq> PPID p) ps \<and> parentsFirst ps)"

text \<open>
  Two invariants of the walk over the records \<open>F\<close>: a record whose PID is marked has
  its PPID marked; and every record whose PPID is marked from \<open>seen\<close> to \<open>seen'\<close> is
  logged under its own PID.
\<close>

definition parentsMarked :: "goprocess_P set \<Rightarrow> seen_map \<Rightarrow> bool" where
  "parentsMarked F seen = (\<forall>s \<in> F. seen (PID s) \<longrightarrow> seen (PPID s))"

definition reached :: "goprocess_P set \<Rightarrow> seen_map \<Rightarrow> seen_map \<Rightarrow> visit list \<Rightarrow> bool" where
  "reached F seen seen' vs =
     (\<forall>r \<in> F. \<not> seen (PPID r) \<and> seen' (PPID r) \<longrightarrow> (PID r, r) \<in> set vs)"

text \<open>
  The branch of the key \<open>k\<close> below the top node: the bare number \<open>k\<close>, no star, and
  as children the records of the bucket of \<open>k\<close> in order, each with the value and the
  mark of a call under its own PID.
\<close>

definition branchOf :: "pstree \<Rightarrow> int \<Rightarrow> node \<Rightarrow> bool" where
  "branchOf pt k n =
     (Value n = IntValue k \<and> Meta n = None \<and>
      map Value (Nodes n) = map (\<lambda>s. visitValue (PID s, s)) (bucket pt k) \<and>
      map Meta (Nodes n) = map (\<lambda>s. visitMeta (PID s, s)) (bucket pt k))"

subsection \<open>Sample snapshots\<close>

text \<open>
  \<open>outlineString\<close> is a plain indented rendering of a tree. It stands for the method
  \<^verbatim>\<open>String\<close> of \<^verbatim>\<open>treeprint\<close> where a statement needs a concrete function; it does not
  draw that library's glyphs, and no general statement below depends on it.
\<close>

fun valueString :: "tvalue \<Rightarrow> string" where
  "valueString (IntValue i) = Itoa i"
| "valueString (StrValue s) = s"

fun outline :: "nat \<Rightarrow> node \<Rightarrow> string" where
  "outline depth (Node m v ks) =
     replicate (2 * depth) CHR '' '' @ (case m of None \<Rightarrow> [] | Some s \<Rightarrow> ''['' @ s @ '']  '') @
     valueString v @ [CHR 0x0A] @ concat (map (outline (Suc depth)) ks)"

definition outlineString :: "node \<Rightarrow> string" where
  "outlineString t = outline 0 t"

text \<open>A daemon and its wallet (the wallet runs the agent), as parent and child.\<close>

definition dcrd1 :: goprocess_P where
  "dcrd1 = \<lparr>PID = 1, PPID = 0, Exec = ''dcrd'', Path = ''/usr/bin/dcrd'',
            BuildVersion = ''go1.12'', Agent = False\<rparr>"

definition wallet2 :: goprocess_P where
  "wallet2 = \<lparr>PID = 2, PPID = 1, Exec = ''dcrwallet'', Path = ''/usr/bin/dcrwallet'',
              BuildVersion = ''go1.12'', Agent = True\<rparr>"

text \<open>A second record below the parent 0, a record that is its own parent, and a cycle.\<close>

definition ctl3 :: goprocess_P where
  "ctl3 = \<lparr>PID = 3, PPID = 0, Exec = ''dcrctl'', Path = ''/usr/bin/dcrctl'',
           BuildVersion = ''go1.13.1'', Agent = True\<rparr>"

definition self5 :: goprocess_P where
  "self5 = \<lparr>PID = 5, PPID = 5, Exec = ''dcrd'', Path = ''/usr/bin/dcrd'',
            BuildVersion = ''go1.12'', Agent = True\<rparr>"

definition cyc3 :: goprocess_P where
  "cyc3 = \<lparr>PID = 3, PPID = 4, Exec = ''dcrdex'', Path = ''/usr/bin/dcrdex'',
           BuildVersion = ''go1.14'', Agent = False\<rparr>"

definition cyc4 :: goprocess_P where
  "cyc4 = \<lparr>PID = 4, PPID = 3, Exec = ''dcrlnd'', Path = ''/usr/bin/dcrlnd'',
           BuildVersion = ''go1.14'', Agent = True\<rparr>"

text \<open>Records for list mode and the name table, and a process outside the family.\<close>

definition dcrd7 :: goprocess_P where
  "dcrd7 = \<lparr>PID = 7, PPID = 1, Exec = ''dcrd'', Path = ''/usr/bin/dcrd'',
            BuildVersion = ''go1.12'', Agent = False\<rparr>"

definition dcrctl1234 :: goprocess_P where
  "dcrctl1234 = \<lparr>PID = 1234, PPID = 7, Exec = ''dcrctl'', Path = ''/usr/bin/dcrctl'',
                 BuildVersion = ''go1.13.1'', Agent = True\<rparr>"

definition bash9 :: goprocess_P where
  "bash9 = \<lparr>PID = 99999, PPID = 0, Exec = ''bash'', Path = ''/bin/bash'',
            BuildVersion = ''go1.12a-very-long-version'', Agent = False\<rparr>"

section \<open>The snapshot index\<close>

lemma bucket_groupByPPID:
  "bucket (groupByPPID ps m) k = bucket m k @ filter (\<lambda>p. PPID p = k) (filter isDcr ps)"
  by (induction ps arbitrary: m) (simp_all add: bucket_def isDcr_def)

lemma bucket_empty: "bucket Map.empty k = []"
  by (simp add: bucket_def)

lemma dom_groupByPPID:
  "dom (groupByPPID ps m) = dom m \<union> PPID ` set (filter isDcr ps)"
  by (induction ps arbitrary: m) (auto simp: isDcr_def)

text \<open>
  C6. The index built for tree mode holds, under every key \<open>k\<close>, exactly the records
  that have the prefix \<^verbatim>\<open>dcr\<close> and report \<open>k\<close> as their parent, in the order of the
  enumeration; its keys are the parent identifiers of those records, so a record without
  the prefix is in no bucket; and the empty enumeration gives the empty map.
\<close>

theorem snapshot_index_buckets:
  "bucket (groupByPPID ps Map.empty) k = filter (\<lambda>p. PPID p = k) (filter isDcr ps)
   \<and> dom (groupByPPID ps Map.empty) = PPID ` set (filter isDcr ps)
   \<and> (p \<in> set (bucket (groupByPPID ps Map.empty) k) \<longleftrightarrow> p \<in> set ps \<and> isDcr p \<and> PPID p = k)
   \<and> (\<not> HasPrefix (Exec q) dcrPrefix \<longrightarrow> q \<notin> set (bucket (groupByPPID ps Map.empty) j))
   \<and> groupByPPID [] Map.empty = Map.empty"
  by (auto simp: bucket_groupByPPID bucket_empty dom_groupByPPID isDcr_def)

text \<open>
  C6, at a snapshot of three processes: the process outside the family has no prefix
  and is in no bucket, and the bucket of the parent 0 holds the daemon alone.
\<close>

theorem snapshot_index_buckets_witness:
  "\<not> HasPrefix (Exec bash9) dcrPrefix \<and>
   bash9 \<notin> set (bucket (groupByPPID [dcrd1, bash9, wallet2] Map.empty) 0) \<and>
   bucket (groupByPPID [dcrd1, bash9, wallet2] Map.empty) 0 = [dcrd1] \<and>
   bucket (groupByPPID [dcrd1, bash9, wallet2] Map.empty) 1 = [wallet2]"
proof -
  have no: "\<not> HasPrefix (Exec bash9) dcrPrefix"
    by (simp add: bash9_def HasPrefix_def dcrPrefix_def)
  have b0: "bucket (groupByPPID [dcrd1, bash9, wallet2] Map.empty) 0 = [dcrd1]"
    and b1: "bucket (groupByPPID [dcrd1, bash9, wallet2] Map.empty) 1 = [wallet2]"
    by (simp_all add: bucket_def dcrd1_def bash9_def wallet2_def HasPrefix_def dcrPrefix_def)
  from snapshot_index_buckets [of "[dcrd1, bash9, wallet2]" 0 dcrd1 bash9 0] no b0 b1
  show ?thesis by blast
qed

section \<open>The walk of \<^verbatim>\<open>constructProcessTree\<close>\<close>

text \<open>
  What a call marks: the keys of its log, which are pairwise different and were not marked
  before. So \<^verbatim>\<open>seen\<close> only grows, and no key is expanded twice.
\<close>

lemma construct_seen:
  "constructProcessTree d pt ppid process seen = Some (seen', vs, ns) \<Longrightarrow>
     (\<forall>k. seen' k \<longleftrightarrow> seen k \<or> k \<in> fst ` set vs) \<and> distinct (map fst vs) \<and>
     (\<forall>k \<in> fst ` set vs. \<not> seen k)"
  "constructChildren d pt procs seen = Some (seen', vs, ns) \<Longrightarrow>
     (\<forall>k. seen' k \<longleftrightarrow> seen k \<or> k \<in> fst ` set vs) \<and> distinct (map fst vs) \<and>
     (\<forall>k \<in> fst ` set vs. \<not> seen k)"
proof (induction d pt ppid process seen and d pt procs seen arbitrary: seen' vs ns and seen' vs ns
    rule: constructProcessTree_constructChildren.induct)
  case (1 pt ppid process seen)
  then show ?case by simp
next
  case (2 d pt ppid process seen)
  show ?case
  proof (cases "seen ppid")
    case True
    with "2.prems" show ?thesis by simp
  next
    case False
    with "2.prems" obtain vs0 kids where
      run: "constructChildren d pt (bucket pt ppid) (seen(ppid := True)) = Some (seen', vs0, kids)"
      and vs: "vs = (ppid, process) # vs0"
      by (auto split: option.splits)
    from "2.IH" [OF False run] False vs show ?thesis
      by (auto split: if_splits)
  qed
next
  case (3 d pt seen)
  then show ?case by simp
next
  case (4 d pt process rest seen)
  from "4.prems" obtain seen1 vs1 ns1 vs2 ns2 where
    one: "constructProcessTree d pt (PID process) process seen = Some (seen1, vs1, ns1)"
    and two: "constructChildren d pt rest seen1 = Some (seen', vs2, ns2)"
    and vs: "vs = vs1 @ vs2"
    by (auto split: option.splits)
  from "4.IH"(1) [OF one] have a: "\<forall>k. seen1 k \<longleftrightarrow> seen k \<or> k \<in> fst ` set vs1"
    "distinct (map fst vs1)" "\<forall>k \<in> fst ` set vs1. \<not> seen k" by auto
  from "4.IH"(2) [OF one refl refl two] have b: "\<forall>k. seen' k \<longleftrightarrow> seen1 k \<or> k \<in> fst ` set vs2"
    "distinct (map fst vs2)" "\<forall>k \<in> fst ` set vs2. \<not> seen1 k" by auto
  from a b vs show ?case by (auto simp: image_iff) (metis fst_conv)
qed

text \<open>The nodes a call adds, parents first, are the nodes of its log, in order.\<close>

lemma rendered_simps:
  "rendered [] = []"
  "rendered (n # ns) = preorder n @ rendered ns"
  "rendered (xs @ ys) = rendered xs @ rendered ys"
  by (simp_all add: rendered_def)

lemma preorder_newBranch:
  "preorder (newBranch k p kids) = newBranch k p kids # rendered kids"
  by (simp add: newBranch_def rendered_def Let_def)

lemma Value_newBranch: "Value (newBranch k p kids) = visitValue (k, p)"
  by (simp add: newBranch_def visitValue_def Let_def)

lemma Meta_newBranch: "Meta (newBranch k p kids) = visitMeta (k, p)"
  by (simp add: newBranch_def visitMeta_def Let_def)

lemma construct_rendered:
  "constructProcessTree d pt ppid process seen = Some (seen', vs, ns) \<Longrightarrow>
     map Value (rendered ns) = map visitValue vs \<and> map Meta (rendered ns) = map visitMeta vs"
  "constructChildren d pt procs seen = Some (seen', vs, ns) \<Longrightarrow>
     map Value (rendered ns) = map visitValue vs \<and> map Meta (rendered ns) = map visitMeta vs"
proof (induction d pt ppid process seen and d pt procs seen arbitrary: seen' vs ns and seen' vs ns
    rule: constructProcessTree_constructChildren.induct)
  case (1 pt ppid process seen)
  then show ?case by simp
next
  case (2 d pt ppid process seen)
  show ?case
  proof (cases "seen ppid")
    case True
    with "2.prems" show ?thesis by (simp add: rendered_simps)
  next
    case False
    with "2.prems" obtain vs0 kids where
      run: "constructChildren d pt (bucket pt ppid) (seen(ppid := True)) = Some (seen', vs0, kids)"
      and vs: "vs = (ppid, process) # vs0" and ns: "ns = [newBranch ppid process kids]"
      by (auto split: option.splits)
    from "2.IH" [OF False run] vs ns show ?thesis
      by (simp add: rendered_simps preorder_newBranch Value_newBranch Meta_newBranch)
  qed
next
  case (3 d pt seen)
  then show ?case by (simp add: rendered_simps)
next
  case (4 d pt process rest seen)
  from "4.prems" obtain seen1 vs1 ns1 vs2 ns2 where
    one: "constructProcessTree d pt (PID process) process seen = Some (seen1, vs1, ns1)"
    and two: "constructChildren d pt rest seen1 = Some (seen', vs2, ns2)"
    and vs: "vs = vs1 @ vs2" and ns: "ns = ns1 @ ns2"
    by (auto split: option.splits)
  from "4.IH"(1) [OF one] "4.IH"(2) [OF one refl refl two] vs ns show ?case
    by (simp add: rendered_simps)
qed

text \<open>A deeper stack changes nothing in a run that returns.\<close>

lemma construct_fuel_Suc:
  "constructProcessTree d pt ppid process seen = Some r \<Longrightarrow>
     constructProcessTree (Suc d) pt ppid process seen = Some r"
  "constructChildren d pt procs seen = Some r \<Longrightarrow>
     constructChildren (Suc d) pt procs seen = Some r"
proof (induction d pt ppid process seen and d pt procs seen arbitrary: r and r
    rule: constructProcessTree_constructChildren.induct)
  case (1 pt ppid process seen)
  then show ?case by simp
next
  case (2 d pt ppid process seen)
  show ?case
  proof (cases "seen ppid")
    case True
    with "2.prems" show ?thesis by simp
  next
    case False
    with "2.prems" obtain r0 where
      run: "constructChildren d pt (bucket pt ppid) (seen(ppid := True)) = Some r0"
      by (auto split: option.splits)
    have upd: "(\<lambda>a. if a = ppid then True else seen a) = seen(ppid := True)"
      by (rule ext) simp
    from "2.IH" [OF False run] have "constructChildren (Suc d) pt (bucket pt ppid) (seen(ppid := True)) = Some r0"
      by (simp only: upd)
    with run "2.prems" False show ?thesis
      by simp
  qed
next
  case (3 d pt seen)
  then show ?case by simp
next
  case (4 d pt process rest seen)
  from "4.prems" obtain seen1 vs1 ns1 r2 where
    one: "constructProcessTree d pt (PID process) process seen = Some (seen1, vs1, ns1)"
    and two: "constructChildren d pt rest seen1 = Some r2"
    by (auto split: option.splits)
  from "4.IH"(1) [OF one] "4.IH"(2) [OF one refl refl two] one two "4.prems" show ?case
    by simp
qed

lemma construct_fuel_mono:
  "constructProcessTree d pt ppid process seen = Some r \<Longrightarrow>
     constructProcessTree (d + n) pt ppid process seen = Some r"
proof (induction n)
  case 0
  then show ?case by simp
next
  case (Suc n)
  from construct_fuel_Suc(1) [OF Suc.IH [OF Suc.prems]] show ?case
    by (simp only: add_Suc_right)
qed

text \<open>Every logged call but the outermost is on a record of a bucket, under its own PID.\<close>

lemma construct_provenance:
  "constructProcessTree d pt ppid process seen = Some (seen', vs, ns) \<Longrightarrow>
     (\<forall>v \<in> set vs. v = (ppid, process) \<or> (fst v = PID (snd v) \<and> (\<exists>j. snd v \<in> set (bucket pt j))))"
  "constructChildren d pt procs seen = Some (seen', vs, ns) \<Longrightarrow>
     (\<forall>v \<in> set vs. fst v = PID (snd v) \<and> (snd v \<in> set procs \<or> (\<exists>j. snd v \<in> set (bucket pt j))))"
proof (induction d pt ppid process seen and d pt procs seen arbitrary: seen' vs ns and seen' vs ns
    rule: constructProcessTree_constructChildren.induct)
  case (1 pt ppid process seen)
  then show ?case by simp
next
  case (2 d pt ppid process seen)
  show ?case
  proof (cases "seen ppid")
    case True
    with "2.prems" show ?thesis by simp
  next
    case False
    with "2.prems" obtain vs0 kids where
      run: "constructChildren d pt (bucket pt ppid) (seen(ppid := True)) = Some (seen', vs0, kids)"
      and vs: "vs = (ppid, process) # vs0"
      by (auto split: option.splits)
    from "2.IH" [OF False run] vs show ?thesis
      by auto
  qed
next
  case (3 d pt seen)
  then show ?case by simp
next
  case (4 d pt process rest seen)
  from "4.prems" obtain seen1 vs1 ns1 vs2 ns2 where
    one: "constructProcessTree d pt (PID process) process seen = Some (seen1, vs1, ns1)"
    and two: "constructChildren d pt rest seen1 = Some (seen', vs2, ns2)"
    and vs: "vs = vs1 @ vs2"
    by (auto split: option.splits)
  from "4.IH"(1) [OF one] "4.IH"(2) [OF one refl refl two] vs show ?case
    by auto
qed

text \<open>
  Termination. In a finite universe of keys that holds the key of the call and the PID of
  every record of every bucket, a stack deeper than the number of unmarked keys is enough:
  each nested call marks one more key.
\<close>

lemma unseen_mark:
  assumes "finite U" "k \<in> U" "\<not> seen k"
  shows "card (unseen U (seen(k := True))) < card (unseen U seen)"
proof -
  have "unseen U (seen(k := True)) \<subset> unseen U seen"
    using assms by (auto simp: unseen_def)
  moreover have "finite (unseen U seen)" using assms by (simp add: unseen_def)
  ultimately show ?thesis by (rule psubset_card_mono [rotated])
qed

lemma unseen_grow:
  assumes "finite U" "\<And>k. seen k \<Longrightarrow> seen' k"
  shows "card (unseen U seen') \<le> card (unseen U seen)"
proof -
  have "unseen U seen' \<subseteq> unseen U seen" using assms by (auto simp: unseen_def)
  moreover have "finite (unseen U seen)" using assms by (simp add: unseen_def)
  ultimately show ?thesis by (rule card_mono [rotated])
qed

lemma construct_returns:
  "finite U \<Longrightarrow> \<forall>j p. p \<in> set (bucket pt j) \<longrightarrow> PID p \<in> U \<Longrightarrow> ppid \<in> U \<Longrightarrow>
     card (unseen U seen) < d \<Longrightarrow> \<exists>r. constructProcessTree d pt ppid process seen = Some r"
  "finite U \<Longrightarrow> \<forall>j p. p \<in> set (bucket pt j) \<longrightarrow> PID p \<in> U \<Longrightarrow> PID ` set procs \<subseteq> U \<Longrightarrow>
     card (unseen U seen) < d \<Longrightarrow> \<exists>r. constructChildren d pt procs seen = Some r"
proof (induction d pt ppid process seen and d pt procs seen
    rule: constructProcessTree_constructChildren.induct)
  case (1 pt ppid process seen)
  then show ?case by simp
next
  case (2 d pt ppid process seen)
  show ?case
  proof (cases "seen ppid")
    case True
    then show ?thesis by simp
  next
    case False
    have "card (unseen U (seen(ppid := True))) < card (unseen U seen)"
      using "2.prems"(1,3) False by (rule unseen_mark)
    with "2.prems"(4) have small: "card (unseen U (seen(ppid := True))) < d" by simp
    have sub: "PID ` set (bucket pt ppid) \<subseteq> U" using "2.prems"(2) by auto
    have upd: "(\<lambda>a. if a = ppid then True else seen a) = seen(ppid := True)"
      by (rule ext) simp
    have "card (unseen U (seen(ppid := True))) < d \<Longrightarrow>
        \<exists>r. constructChildren d pt (bucket pt ppid) (seen(ppid := True)) = Some r"
      using "2.IH" [OF False "2.prems"(1) "2.prems"(2) sub] by (simp only: upd)
    from this [OF small]
    obtain r where "constructChildren d pt (bucket pt ppid) (seen(ppid := True)) = Some r"
      by blast
    with False show ?thesis by (cases r) simp
  qed
next
  case (3 d pt seen)
  then show ?case by simp
next
  case (4 d pt process rest seen)
  from "4.prems" have key: "PID process \<in> U" and rest: "PID ` set rest \<subseteq> U" by auto
  from "4.IH"(1) [OF "4.prems"(1) "4.prems"(2) key "4.prems"(4)]
  obtain seen1 vs1 ns1 where
    one: "constructProcessTree d pt (PID process) process seen = Some (seen1, vs1, ns1)"
    by (metis prod_cases3)
  from construct_seen(1) [OF one] have "\<And>k. seen k \<Longrightarrow> seen1 k" by simp
  with "4.prems"(1) have "card (unseen U seen1) \<le> card (unseen U seen)"
    by (rule unseen_grow)
  with "4.prems"(4) have small: "card (unseen U seen1) < d" by simp
  from "4.IH"(2) [OF one refl refl "4.prems"(1) "4.prems"(2) rest small]
  obtain r2 where "constructChildren d pt rest seen1 = Some r2" by blast
  with one show ?case by (cases r2) simp
qed

text \<open>
  Below a parent that is marked, every new node is composite; so a call adds nothing, or
  one node whose descendants are all composite.
\<close>

lemma composite_newBranch:
  "p \<in> F \<Longrightarrow> PID p \<noteq> PPID p \<Longrightarrow> composite F (newBranch (PID p) p kids)"
  unfolding composite_def by (rule bexI [of _ p]) (simp_all add: newBranch_def Let_def)

lemma construct_shape:
  "constructProcessTree d pt ppid process seen = Some (seen', vs, ns) \<Longrightarrow>
     \<forall>j p. p \<in> set (bucket pt j) \<longrightarrow> PPID p = j \<and> p \<in> F \<Longrightarrow>
     (seen ppid \<and> ns = []) \<or>
     (\<not> seen ppid \<and> (\<exists>kids. ns = [newBranch ppid process kids] \<and> (\<forall>c \<in> set (rendered kids). composite F c)))"
  "constructChildren d pt procs seen = Some (seen', vs, ns) \<Longrightarrow>
     \<forall>j p. p \<in> set (bucket pt j) \<longrightarrow> PPID p = j \<and> p \<in> F \<Longrightarrow>
     \<forall>p \<in> set procs. p \<in> F \<and> seen (PPID p) \<Longrightarrow>
     (\<forall>c \<in> set (rendered ns). composite F c)"
proof (induction d pt ppid process seen and d pt procs seen arbitrary: seen' vs ns and seen' vs ns
    rule: constructProcessTree_constructChildren.induct)
  case (1 pt ppid process seen)
  then show ?case by simp
next
  case (2 d pt ppid process seen)
  show ?case
  proof (cases "seen ppid")
    case True
    with "2.prems" show ?thesis by simp
  next
    case False
    with "2.prems" obtain vs0 kids where
      run: "constructChildren d pt (bucket pt ppid) (seen(ppid := True)) = Some (seen', vs0, kids)"
      and ns: "ns = [newBranch ppid process kids]"
      by (auto split: option.splits)
    have "\<forall>p \<in> set (bucket pt ppid). p \<in> F \<and> (seen(ppid := True)) (PPID p)"
      using "2.prems"(2) by simp
    with "2.IH" [OF False run "2.prems"(2)] have "\<forall>c \<in> set (rendered kids). composite F c"
      by simp
    with False ns show ?thesis by blast
  qed
next
  case (3 d pt seen)
  then show ?case by (simp add: rendered_simps)
next
  case (4 d pt process rest seen)
  from "4.prems" obtain seen1 vs1 ns1 vs2 ns2 where
    one: "constructProcessTree d pt (PID process) process seen = Some (seen1, vs1, ns1)"
    and two: "constructChildren d pt rest seen1 = Some (seen', vs2, ns2)"
    and ns: "ns = ns1 @ ns2"
    by (auto split: option.splits)
  from "4.prems"(3) have inF: "process \<in> F" and par: "seen (PPID process)" by simp_all
  have first: "\<forall>c \<in> set (rendered ns1). composite F c"
  proof -
    from "4.IH"(1) [OF one "4.prems"(2)] show ?thesis
    proof
      assume "seen (PID process) \<and> ns1 = []"
      then show ?thesis by (simp add: rendered_simps)
    next
      assume "\<not> seen (PID process) \<and> (\<exists>kids. ns1 = [newBranch (PID process) process kids] \<and>
        (\<forall>c \<in> set (rendered kids). composite F c))"
      then obtain kids where new: "\<not> seen (PID process)"
        and ns1: "ns1 = [newBranch (PID process) process kids]"
        and kids: "\<forall>c \<in> set (rendered kids). composite F c" by blast
      from new par have "PID process \<noteq> PPID process" by auto
      with inF have "composite F (newBranch (PID process) process kids)"
        by (rule composite_newBranch)
      with ns1 kids show ?thesis by (simp add: rendered_simps preorder_newBranch)
    qed
  qed
  from construct_seen(1) [OF one] "4.prems"(3)
  have "\<forall>p \<in> set rest. p \<in> F \<and> seen1 (PPID p)" by simp
  from "4.IH"(2) [OF one refl refl two "4.prems"(2) this] first ns show ?case
    by (auto simp: rendered_simps)
qed

section \<open>The loop of \<^verbatim>\<open>displayProcessTree\<close>\<close>

lemma displayLoop_Cons_Some:
  assumes "displayLoop d pt (p # ps) seen = Some (seen', vs, ns)" "HasPrefix (Exec p) dcrPrefix"
  obtains seen1 vs1 ns1 vs2 ns2 where
    "constructProcessTree d pt (PPID p) p seen = Some (seen1, vs1, ns1)"
    "displayLoop d pt ps seen1 = Some (seen', vs2, ns2)"
    "vs = vs1 @ vs2" "ns = ns1 @ ns2"
  using assms by (auto split: option.splits)

lemma displayLoop_seen:
  "displayLoop d pt ps seen = Some (seen', vs, ns) \<Longrightarrow>
     (\<forall>k. seen' k \<longleftrightarrow> seen k \<or> k \<in> fst ` set vs) \<and> distinct (map fst vs) \<and>
     (\<forall>k \<in> fst ` set vs. \<not> seen k)"
proof (induction ps arbitrary: seen seen' vs ns)
  case Nil
  then show ?case by simp
next
  case (Cons p ps)
  show ?case
  proof (cases "HasPrefix (Exec p) dcrPrefix")
    case False
    with Cons.prems have "displayLoop d pt ps seen = Some (seen', vs, ns)" by simp
    then show ?thesis by (rule Cons.IH)
  next
    case True
    from Cons.prems True obtain seen1 vs1 ns1 vs2 ns2 where
      one: "constructProcessTree d pt (PPID p) p seen = Some (seen1, vs1, ns1)"
      and two: "displayLoop d pt ps seen1 = Some (seen', vs2, ns2)"
      and vs: "vs = vs1 @ vs2"
      by (rule displayLoop_Cons_Some)
    from construct_seen(1) [OF one] have a: "\<forall>k. seen1 k \<longleftrightarrow> seen k \<or> k \<in> fst ` set vs1"
      "distinct (map fst vs1)" "\<forall>k \<in> fst ` set vs1. \<not> seen k" by auto
    from Cons.IH [OF two] have b: "\<forall>k. seen' k \<longleftrightarrow> seen1 k \<or> k \<in> fst ` set vs2"
      "distinct (map fst vs2)" "\<forall>k \<in> fst ` set vs2. \<not> seen1 k" by auto
    from a b vs show ?thesis by (auto simp: image_iff) (metis fst_conv)
  qed
qed

lemma displayLoop_rendered:
  "displayLoop d pt ps seen = Some (seen', vs, ns) \<Longrightarrow>
     map Value (rendered ns) = map visitValue vs \<and> map Meta (rendered ns) = map visitMeta vs"
proof (induction ps arbitrary: seen seen' vs ns)
  case Nil
  then show ?case by (simp add: rendered_simps)
next
  case (Cons p ps)
  show ?case
  proof (cases "HasPrefix (Exec p) dcrPrefix")
    case False
    with Cons.prems have "displayLoop d pt ps seen = Some (seen', vs, ns)" by simp
    then show ?thesis by (rule Cons.IH)
  next
    case True
    from Cons.prems True obtain seen1 vs1 ns1 vs2 ns2 where
      one: "constructProcessTree d pt (PPID p) p seen = Some (seen1, vs1, ns1)"
      and two: "displayLoop d pt ps seen1 = Some (seen', vs2, ns2)"
      and vs: "vs = vs1 @ vs2" and ns: "ns = ns1 @ ns2"
      by (rule displayLoop_Cons_Some)
    from construct_rendered(1) [OF one] Cons.IH [OF two] vs ns show ?thesis
      by (simp add: rendered_simps)
  qed
qed

lemma displayLoop_provenance:
  "displayLoop d pt ps seen = Some (seen', vs, ns) \<Longrightarrow>
     (\<forall>v \<in> set vs. (fst v = PPID (snd v) \<and> snd v \<in> set ps \<and> isDcr (snd v)) \<or>
                    (fst v = PID (snd v) \<and> (\<exists>j. snd v \<in> set (bucket pt j))))"
proof (induction ps arbitrary: seen seen' vs ns)
  case Nil
  then show ?case by simp
next
  case (Cons p ps)
  show ?case
  proof (cases "HasPrefix (Exec p) dcrPrefix")
    case False
    with Cons.prems have "displayLoop d pt ps seen = Some (seen', vs, ns)" by simp
    from Cons.IH [OF this] show ?thesis by auto
  next
    case True
    from Cons.prems True obtain seen1 vs1 ns1 vs2 ns2 where
      one: "constructProcessTree d pt (PPID p) p seen = Some (seen1, vs1, ns1)"
      and two: "displayLoop d pt ps seen1 = Some (seen', vs2, ns2)"
      and vs: "vs = vs1 @ vs2"
      by (rule displayLoop_Cons_Some)
    from construct_provenance(1) [OF one] Cons.IH [OF two] vs True show ?thesis
      by (auto simp: isDcr_def)
  qed
qed

lemma displayLoop_fuel_mono:
  "displayLoop d pt ps seen = Some r \<Longrightarrow> displayLoop (d + n) pt ps seen = Some r"
proof (induction ps arbitrary: seen r)
  case Nil
  then show ?case by simp
next
  case (Cons p ps)
  show ?case
  proof (cases "HasPrefix (Exec p) dcrPrefix")
    case False
    with Cons.prems Cons.IH show ?thesis by simp
  next
    case True
    from Cons.prems True obtain seen1 vs1 ns1 r2 where
      one: "constructProcessTree d pt (PPID p) p seen = Some (seen1, vs1, ns1)"
      and two: "displayLoop d pt ps seen1 = Some r2"
      by (auto split: option.splits)
    from construct_fuel_mono [OF one] Cons.IH [OF two] one two Cons.prems True show ?thesis
      by simp
  qed
qed

lemma displayLoop_returns:
  "finite U \<Longrightarrow> \<forall>j p. p \<in> set (bucket pt j) \<longrightarrow> PID p \<in> U \<Longrightarrow>
     PPID ` set (filter isDcr ps) \<subseteq> U \<Longrightarrow> card (unseen U seen) < d \<Longrightarrow>
     \<exists>r. displayLoop d pt ps seen = Some r"
proof (induction ps arbitrary: seen)
  case Nil
  then show ?case by simp
next
  case (Cons p ps)
  from Cons.prems(3) have rest: "PPID ` set (filter isDcr ps) \<subseteq> U" by auto
  show ?case
  proof (cases "HasPrefix (Exec p) dcrPrefix")
    case False
    with Cons.IH [OF Cons.prems(1,2) rest Cons.prems(4)] show ?thesis by simp
  next
    case True
    with Cons.prems(3) have key: "PPID p \<in> U" by (simp add: isDcr_def)
    from construct_returns(1) [OF Cons.prems(1,2) key Cons.prems(4)]
    obtain seen1 vs1 ns1 where
      one: "constructProcessTree d pt (PPID p) p seen = Some (seen1, vs1, ns1)"
      by (metis prod_cases3)
    from construct_seen(1) [OF one] have "\<And>k. seen k \<Longrightarrow> seen1 k" by simp
    with Cons.prems(1) have "card (unseen U seen1) \<le> card (unseen U seen)"
      by (rule unseen_grow)
    with Cons.prems(4) have small: "card (unseen U seen1) < d" by simp
    from Cons.IH [OF Cons.prems(1,2) rest small]
    obtain r2 where "displayLoop d pt ps seen1 = Some r2" by blast
    with one True show ?thesis by (cases r2) simp
  qed
qed

lemma displayLoop_enough:
  "\<exists>r. displayLoop (2 * length ps + 1) (groupByPPID ps Map.empty) ps (\<lambda>k. False) = Some r"
proof -
  let ?F = "set (filter isDcr ps)"
  let ?U = "PID ` ?F \<union> PPID ` ?F"
  have fin: "finite ?U" by simp
  have "card ?U \<le> card (PID ` ?F) + card (PPID ` ?F)" by (rule card_Un_le)
  also have "\<dots> \<le> card ?F + card ?F" by (intro add_mono card_image_le) simp_all
  also have "card ?F \<le> length ps"
    by (rule le_trans [OF card_length]) simp
  finally have "card ?U \<le> 2 * length ps" by simp
  moreover have "unseen ?U (\<lambda>k. False) = ?U" by (auto simp: unseen_def)
  ultimately have small: "card (unseen ?U (\<lambda>k. False)) < 2 * length ps + 1" by simp
  have closed: "\<forall>j p. p \<in> set (bucket (groupByPPID ps Map.empty) j) \<longrightarrow> PID p \<in> ?U"
    by (auto simp: bucket_groupByPPID bucket_empty)
  show ?thesis
    by (rule displayLoop_returns [OF fin closed _ small]) simp
qed

lemma displayLoop_shape:
  "displayLoop d pt ps seen = Some (seen', vs, ns) \<Longrightarrow>
     \<forall>j p. p \<in> set (bucket pt j) \<longrightarrow> PPID p = j \<and> p \<in> F \<Longrightarrow>
     \<forall>n \<in> set ns. (\<exists>p \<in> set ps. isDcr p \<and> Value n = IntValue (PPID p)) \<and> Meta n = None \<and>
        (\<forall>c \<in> set (rendered (Nodes n)). composite F c)"
proof (induction ps arbitrary: seen seen' vs ns)
  case Nil
  then show ?case by simp
next
  case (Cons p ps)
  show ?case
  proof (cases "HasPrefix (Exec p) dcrPrefix")
    case False
    with Cons.prems have "displayLoop d pt ps seen = Some (seen', vs, ns)" by simp
    from Cons.IH [OF this Cons.prems(2)] show ?thesis by auto
  next
    case True
    from Cons.prems(1) True obtain seen1 vs1 ns1 vs2 ns2 where
      one: "constructProcessTree d pt (PPID p) p seen = Some (seen1, vs1, ns1)"
      and two: "displayLoop d pt ps seen1 = Some (seen', vs2, ns2)"
      and ns: "ns = ns1 @ ns2"
      by (rule displayLoop_Cons_Some)
    have first: "\<forall>n \<in> set ns1. (\<exists>q \<in> set (p # ps). isDcr q \<and> Value n = IntValue (PPID q)) \<and>
        Meta n = None \<and> (\<forall>c \<in> set (rendered (Nodes n)). composite F c)"
      using construct_shape(1) [OF one Cons.prems(2)] True
      by (auto simp: newBranch_def isDcr_def)
    from Cons.IH [OF two Cons.prems(2)] first ns show ?thesis by auto
  qed
qed

lemma displayProcessTree_Some:
  assumes "displayProcessTree toString d pstree0 ps = Some r"
  obtains ns where
    "displayLoop d (groupByPPID ps Map.empty) ps (\<lambda>k. False) = Some (seen_after r, visits r, ns)"
    "tree r = Node None (StrValue ''...'') ns"
    "pstree_after r = groupByPPID ps Map.empty"
    "stdout r = toString (tree r) @ [CHR 0x0A]"
  using assms by (auto simp: displayProcessTree_def Let_def split: option.splits)

lemma distinct_same_key:
  "distinct (map f xs) \<Longrightarrow> \<forall>x \<in> set xs. f x = c \<Longrightarrow> length xs \<le> 1"
  by (cases xs; cases "tl xs") auto

lemma distinct_card_length: "distinct (map f xs) \<Longrightarrow> length xs = card (f ` set xs)"
  by (metis distinct_card length_map set_map)

lemma map_option_SomeD: "map_option f x = Some y \<Longrightarrow> \<exists>r. x = Some r \<and> f r = y"
  by (cases x) auto

text \<open>
  Completeness of the walk. Over records with pairwise different PIDs of which none is
  its own parent, a call on an unmarked key logs every record whose PPID it marks, and the
  children of the node it adds are the records of the bucket of its key, in order.
\<close>

lemma construct_siblings:
  "constructProcessTree d pt key q seen = Some (seen', vs, ns) \<Longrightarrow>
     \<forall>j. bucket pt j = filter (\<lambda>p. PPID p = j) Fl \<Longrightarrow> distinct (map PID Fl) \<Longrightarrow>
     \<forall>s \<in> set Fl. PID s \<noteq> PPID s \<Longrightarrow> parentsMarked (set Fl) seen \<Longrightarrow> \<not> seen key \<Longrightarrow>
     \<forall>s \<in> set Fl. PID s = key \<longrightarrow> seen (PPID s) \<Longrightarrow>
     parentsMarked (set Fl) seen' \<and> reached (set Fl) seen seen' vs \<and>
     (\<exists>vs0 kids. vs = (key, q) # vs0 \<and> ns = [newBranch key q kids] \<and>
        map Value kids = map (\<lambda>s. visitValue (PID s, s)) (bucket pt key) \<and>
        map Meta kids = map (\<lambda>s. visitMeta (PID s, s)) (bucket pt key) \<and>
        (\<forall>v \<in> set vs0. fst v = PID (snd v) \<and> snd v \<in> set Fl \<and> \<not> seen (PPID (snd v))))"
  "constructChildren d pt rest seen = Some (seen', vs, ns) \<Longrightarrow>
     \<forall>j. bucket pt j = filter (\<lambda>p. PPID p = j) Fl \<Longrightarrow> distinct (map PID Fl) \<Longrightarrow>
     \<forall>s \<in> set Fl. PID s \<noteq> PPID s \<Longrightarrow> parentsMarked (set Fl) seen \<Longrightarrow>
     set rest \<subseteq> set Fl \<Longrightarrow> distinct (map PID rest) \<Longrightarrow>
     \<forall>s \<in> set rest. seen (PPID s) \<and> \<not> seen (PID s) \<Longrightarrow>
     parentsMarked (set Fl) seen' \<and> (\<forall>s \<in> set rest. (PID s, s) \<in> set vs) \<and>
     reached (set Fl) seen seen' vs \<and>
     map Value ns = map (\<lambda>s. visitValue (PID s, s)) rest \<and>
     map Meta ns = map (\<lambda>s. visitMeta (PID s, s)) rest \<and>
     (\<forall>v \<in> set vs. fst v = PID (snd v) \<and> snd v \<in> set Fl \<and>
        (snd v \<in> set rest \<or> \<not> seen (PPID (snd v))))"
proof (induction d pt key q seen and d pt rest seen arbitrary: seen' vs ns and seen' vs ns
    rule: constructProcessTree_constructChildren.induct)
  case (1 pt ppid process seen)
  then show ?case by simp
next
  case (2 d pt ppid process seen)
  note new = \<open>\<not> seen ppid\<close>
  let ?m = "seen(ppid := True)"
  from "2.prems"(1) new obtain vs0 kids where
    run: "constructChildren d pt (bucket pt ppid) ?m = Some (seen', vs0, kids)"
    and vs: "vs = (ppid, process) # vs0" and ns: "ns = [newBranch ppid process kids]"
    by (auto split: option.splits)
  have bk: "bucket pt ppid = filter (\<lambda>p. PPID p = ppid) Fl" using "2.prems"(2) by simp
  have g: "parentsMarked (set Fl) ?m"
    using "2.prems"(5,7) by (auto simp: parentsMarked_def)
  have sub: "set (bucket pt ppid) \<subseteq> set Fl" by (auto simp: bk)
  have dist: "distinct (map PID (bucket pt ppid))"
    unfolding bk using "2.prems"(3) by (rule distinct_map_filter)
  have pre: "\<forall>s \<in> set (bucket pt ppid). ?m (PPID s) \<and> \<not> ?m (PID s)"
    using "2.prems"(4,5) new by (auto simp: bk parentsMarked_def)
  from "2.IH" [OF new run "2.prems"(2,3,4) g sub dist pre]
  have g': "parentsMarked (set Fl) seen'"
    and kids: "\<forall>s \<in> set (bucket pt ppid). (PID s, s) \<in> set vs0"
    and rc: "reached (set Fl) ?m seen' vs0"
    and shape: "map Value kids = map (\<lambda>s. visitValue (PID s, s)) (bucket pt ppid)"
      "map Meta kids = map (\<lambda>s. visitMeta (PID s, s)) (bucket pt ppid)"
    and nw: "\<forall>v \<in> set vs0. fst v = PID (snd v) \<and> snd v \<in> set Fl \<and>
        (snd v \<in> set (bucket pt ppid) \<or> \<not> ?m (PPID (snd v)))"
    by blast+
  have "reached (set Fl) seen seen' vs"
    unfolding reached_def
  proof (intro ballI impI)
    fix r assume r: "r \<in> set Fl" and a: "\<not> seen (PPID r) \<and> seen' (PPID r)"
    show "(PID r, r) \<in> set vs"
    proof (cases "PPID r = ppid")
      case True
      with r have "r \<in> set (bucket pt ppid)" by (simp add: bk)
      with kids vs show ?thesis by simp
    next
      case False
      with a have "\<not> ?m (PPID r) \<and> seen' (PPID r)" by simp
      with rc r vs show ?thesis by (auto simp: reached_def)
    qed
  qed
  moreover have "\<forall>v \<in> set vs0. fst v = PID (snd v) \<and> snd v \<in> set Fl \<and> \<not> seen (PPID (snd v))"
    using nw new by (auto simp: bk split: if_splits)
  ultimately show ?case using g' vs ns shape by blast
next
  case (3 d pt seen)
  then show ?case by (simp add: reached_def)
next
  case (4 d pt process rest seen)
  from "4.prems"(1) obtain seen1 vs1 ns1 vs2 ns2 where
    one: "constructProcessTree d pt (PID process) process seen = Some (seen1, vs1, ns1)"
    and two: "constructChildren d pt rest seen1 = Some (seen', vs2, ns2)"
    and vs: "vs = vs1 @ vs2" and ns: "ns = ns1 @ ns2"
    by (auto split: option.splits)
  from "4.prems"(6) have inF: "process \<in> set Fl" and restF: "set rest \<subseteq> set Fl" by simp_all
  from "4.prems"(8) have par: "seen (PPID process)" and new: "\<not> seen (PID process)" by simp_all
  from "4.prems"(3) have inj: "inj_on PID (set Fl)" by (simp add: distinct_map)
  have own: "\<forall>s \<in> set Fl. PID s = PID process \<longrightarrow> seen (PPID s)"
    using inj inF par by (auto dest: inj_onD)
  from "4.IH"(1) [OF one "4.prems"(2,3,4,5) new own]
  obtain vs0 kids where g1: "parentsMarked (set Fl) seen1"
    and rc1: "reached (set Fl) seen seen1 vs1"
    and vs1: "vs1 = (PID process, process) # vs0"
    and ns1: "ns1 = [newBranch (PID process) process kids]"
    and nw1: "\<forall>v \<in> set vs0. fst v = PID (snd v) \<and> snd v \<in> set Fl \<and> \<not> seen (PPID (snd v))"
    by blast
  from construct_seen(1) [OF one]
  have s1: "\<forall>k. seen1 k \<longleftrightarrow> seen k \<or> k \<in> fst ` set vs1" by simp
  from "4.prems"(7) have dist: "distinct (map PID rest)"
    and other: "\<forall>s \<in> set rest. PID s \<noteq> PID process" by (auto simp: image_iff)
  have pre: "\<forall>s \<in> set rest. seen1 (PPID s) \<and> \<not> seen1 (PID s)"
  proof
    fix s assume s: "s \<in> set rest"
    with "4.prems"(8) have sp: "seen (PPID s)" and sn: "\<not> seen (PID s)" by simp_all
    have "PID s \<notin> fst ` set vs1"
    proof
      assume "PID s \<in> fst ` set vs1"
      then obtain v where v: "v \<in> set vs1" and k: "fst v = PID s" by auto
      from other s have "PID s \<noteq> PID process" by simp
      with v k vs1 have "v \<in> set vs0" by auto
      with nw1 have "fst v = PID (snd v)" "snd v \<in> set Fl" "\<not> seen (PPID (snd v))" by auto
      with k inj s restF have "snd v = s" by (auto dest: inj_onD)
      with \<open>\<not> seen (PPID (snd v))\<close> sp show False by simp
    qed
    with s1 sp sn show "seen1 (PPID s) \<and> \<not> seen1 (PID s)" by simp
  qed
  from "4.IH"(2) [OF one refl refl two "4.prems"(2,3,4) g1 restF dist pre]
  have g': "parentsMarked (set Fl) seen'"
    and all2: "\<forall>s \<in> set rest. (PID s, s) \<in> set vs2"
    and rc2: "reached (set Fl) seen1 seen' vs2"
    and shape2: "map Value ns2 = map (\<lambda>s. visitValue (PID s, s)) rest"
      "map Meta ns2 = map (\<lambda>s. visitMeta (PID s, s)) rest"
    and nw2: "\<forall>v \<in> set vs2. fst v = PID (snd v) \<and> snd v \<in> set Fl \<and>
        (snd v \<in> set rest \<or> \<not> seen1 (PPID (snd v)))"
    by blast+
  have a: "\<forall>s \<in> set (process # rest). (PID s, s) \<in> set vs"
    using all2 vs vs1 by auto
  have b: "reached (set Fl) seen seen' vs"
    using rc1 rc2 vs by (auto simp: reached_def)
  have c: "\<forall>v \<in> set vs. fst v = PID (snd v) \<and> snd v \<in> set Fl \<and>
        (snd v \<in> set (process # rest) \<or> \<not> seen (PPID (snd v)))"
    using nw1 nw2 vs vs1 inF s1 by auto
  have e: "map Value ns = map (\<lambda>s. visitValue (PID s, s)) (process # rest)"
    "map Meta ns = map (\<lambda>s. visitMeta (PID s, s)) (process # rest)"
    using ns ns1 shape2 by (simp_all add: Value_newBranch Meta_newBranch)
  from g' a b c e show ?case by blast
qed

lemma parentsFirst_noself: "parentsFirst ps \<Longrightarrow> \<forall>s \<in> set ps. PID s \<noteq> PPID s"
  by (induction ps) auto

lemma displayLoop_complete:
  "displayLoop d pt ps seen = Some (seen', vs, ns) \<Longrightarrow> Fl = filter isDcr (pre @ ps) \<Longrightarrow>
     \<forall>j. bucket pt j = filter (\<lambda>p. PPID p = j) Fl \<Longrightarrow> distinct (map PID Fl) \<Longrightarrow>
     \<forall>s \<in> set Fl. PID s \<noteq> PPID s \<Longrightarrow> parentsFirst (filter isDcr ps) \<Longrightarrow>
     parentsMarked (set Fl) seen \<Longrightarrow> \<forall>p \<in> set (filter isDcr pre). seen (PPID p) \<Longrightarrow>
     parentsMarked (set Fl) seen' \<and> (\<forall>p \<in> set Fl. seen' (PPID p)) \<and> reached (set Fl) seen seen' vs"
proof (induction ps arbitrary: pre seen seen' vs ns)
  case Nil
  then show ?case by (simp add: reached_def)
next
  case (Cons p ps)
  show ?case
  proof (cases "HasPrefix (Exec p) dcrPrefix")
    case False
    then have nd: "\<not> isDcr p" by (simp add: isDcr_def)
    from False Cons.prems(1) have run: "displayLoop d pt ps seen = Some (seen', vs, ns)" by simp
    from nd Cons.prems(2) have fl: "Fl = filter isDcr ((pre @ [p]) @ ps)" by simp
    from nd Cons.prems(6) have pf: "parentsFirst (filter isDcr ps)" by simp
    from nd Cons.prems(8) have t: "\<forall>x \<in> set (filter isDcr (pre @ [p])). seen (PPID x)" by simp
    from Cons.IH [OF run fl Cons.prems(3,4,5) pf Cons.prems(7) t] show ?thesis .
  next
    case True
    then have isd: "isDcr p" by (simp add: isDcr_def)
    from Cons.prems(1) True obtain seen1 vs1 ns1 vs2 ns2 where
      one: "constructProcessTree d pt (PPID p) p seen = Some (seen1, vs1, ns1)"
      and two: "displayLoop d pt ps seen1 = Some (seen', vs2, ns2)"
      and vs: "vs = vs1 @ vs2"
      by (rule displayLoop_Cons_Some)
    from isd Cons.prems(2) have fl: "Fl = filter isDcr ((pre @ [p]) @ ps)" by simp
    from isd Cons.prems(6) have pf: "parentsFirst (filter isDcr ps)"
      and later: "\<forall>q \<in> set (filter isDcr ps). PID q \<noteq> PPID p" and self: "PPID p \<noteq> PID p"
      by (simp_all add: list_all_iff)
    from construct_seen(1) [OF one]
    have s1: "\<forall>k. seen1 k \<longleftrightarrow> seen k \<or> k \<in> fst ` set vs1" by simp
    have first: "parentsMarked (set Fl) seen1 \<and> seen1 (PPID p) \<and> reached (set Fl) seen seen1 vs1"
    proof (cases "seen (PPID p)")
      case True
      with one obtain d' where "d = Suc d'" by (cases d) auto
      with one True have "seen1 = seen" "vs1 = []" by simp_all
      with True Cons.prems(7) show ?thesis by (simp add: reached_def)
    next
      case False
      have own: "\<forall>s \<in> set Fl. PID s = PPID p \<longrightarrow> seen (PPID s)"
        using Cons.prems(2,8) later self isd by auto
      from construct_siblings(1) [OF one Cons.prems(3,4,5,7) False own] s1
      show ?thesis by auto
    qed
    have t: "\<forall>x \<in> set (filter isDcr (pre @ [p])). seen1 (PPID x)"
      using Cons.prems(8) first s1 by auto
    from Cons.IH [OF two fl Cons.prems(3,4,5) pf _ t] first
    have g': "parentsMarked (set Fl) seen'" and all: "\<forall>p \<in> set Fl. seen' (PPID p)"
      and rc2: "reached (set Fl) seen1 seen' vs2" by blast+
    from first rc2 vs have "reached (set Fl) seen seen' vs" by (auto simp: reached_def)
    with g' all show ?thesis by blast
  qed
qed

lemma distinct_count_one:
  assumes "distinct xs" "x \<in> set xs"
  shows "length (filter (\<lambda>v. v = x) xs) = 1"
proof -
  from assms(2) have "{v. v = x} \<inter> set xs = {x}" by auto
  with distinct_length_filter [OF assms(1), of "\<lambda>v. v = x"] show ?thesis by simp
qed

text \<open>
  The nodes directly below the top node: each is the branch of a key that was not marked
  before, no two carry the same number, and every parent identifier that is no record's
  PID has one.
\<close>

lemma newBranch_top: "newBranch (PPID p) p kids = Node None (IntValue (PPID p)) kids"
  by (simp add: newBranch_def)

lemma displayLoop_branches:
  "displayLoop d pt ps seen = Some (seen', vs, ns) \<Longrightarrow> Fl = filter isDcr (pre @ ps) \<Longrightarrow>
     \<forall>j. bucket pt j = filter (\<lambda>p. PPID p = j) Fl \<Longrightarrow> distinct (map PID Fl) \<Longrightarrow>
     \<forall>s \<in> set Fl. PID s \<noteq> PPID s \<Longrightarrow> parentsFirst (filter isDcr ps) \<Longrightarrow>
     parentsMarked (set Fl) seen \<Longrightarrow> \<forall>p \<in> set (filter isDcr pre). seen (PPID p) \<Longrightarrow>
     (\<forall>n \<in> set ns. \<exists>k. \<not> seen k \<and> branchOf pt k n) \<and> distinct (map Value ns) \<and>
     (\<forall>p \<in> set (filter isDcr ps). \<not> seen (PPID p) \<and> PPID p \<notin> PID ` set Fl \<longrightarrow>
        IntValue (PPID p) \<in> Value ` set ns)"
proof (induction ps arbitrary: pre seen seen' vs ns)
  case Nil
  then show ?case by simp
next
  case (Cons p ps)
  show ?case
  proof (cases "HasPrefix (Exec p) dcrPrefix")
    case False
    then have nd: "\<not> isDcr p" by (simp add: isDcr_def)
    from False Cons.prems(1) have run: "displayLoop d pt ps seen = Some (seen', vs, ns)" by simp
    from nd Cons.prems(2) have fl: "Fl = filter isDcr ((pre @ [p]) @ ps)" by simp
    from nd Cons.prems(6) have pf: "parentsFirst (filter isDcr ps)" by simp
    from nd Cons.prems(8) have t: "\<forall>x \<in> set (filter isDcr (pre @ [p])). seen (PPID x)" by simp
    from Cons.IH [OF run fl Cons.prems(3,4,5) pf Cons.prems(7) t] nd show ?thesis by simp
  next
    case True
    then have isd: "isDcr p" by (simp add: isDcr_def)
    from Cons.prems(1) True obtain seen1 vs1 ns1 vs2 ns2 where
      one: "constructProcessTree d pt (PPID p) p seen = Some (seen1, vs1, ns1)"
      and two: "displayLoop d pt ps seen1 = Some (seen', vs2, ns2)"
      and vs: "vs = vs1 @ vs2" and ns: "ns = ns1 @ ns2"
      by (rule displayLoop_Cons_Some)
    from isd Cons.prems(2) have fl: "Fl = filter isDcr ((pre @ [p]) @ ps)" by simp
    from isd Cons.prems(6) have pf: "parentsFirst (filter isDcr ps)"
      and later: "\<forall>q \<in> set (filter isDcr ps). PID q \<noteq> PPID p" and self: "PPID p \<noteq> PID p"
      by (simp_all add: list_all_iff)
    from construct_seen(1) [OF one]
    have s1: "\<forall>k. seen1 k \<longleftrightarrow> seen k \<or> k \<in> fst ` set vs1" by simp
    have first: "parentsMarked (set Fl) seen1 \<and> seen1 (PPID p) \<and>
        (\<forall>n \<in> set ns1. \<not> seen (PPID p) \<and> branchOf pt (PPID p) n) \<and>
        (\<not> seen (PPID p) \<longrightarrow> IntValue (PPID p) \<in> Value ` set ns1)"
    proof (cases "seen (PPID p)")
      case True
      with one obtain d' where "d = Suc d'" by (cases d) auto
      with one True have "seen1 = seen" "ns1 = []" by simp_all
      with True Cons.prems(7) show ?thesis by simp
    next
      case False
      have own: "\<forall>s \<in> set Fl. PID s = PPID p \<longrightarrow> seen (PPID s)"
        using Cons.prems(2,8) later self isd by auto
      from construct_siblings(1) [OF one Cons.prems(3,4,5,7) False own] s1 False
      show ?thesis by (auto simp: newBranch_top branchOf_def)
    qed
    have t: "\<forall>x \<in> set (filter isDcr (pre @ [p])). seen1 (PPID x)"
      using Cons.prems(8) first s1 by auto
    from Cons.IH [OF two fl Cons.prems(3,4,5) pf _ t] first
    have b2: "\<forall>n \<in> set ns2. \<exists>k. \<not> seen1 k \<and> branchOf pt k n"
      and d2: "distinct (map Value ns2)"
      and c2: "\<forall>q \<in> set (filter isDcr ps). \<not> seen1 (PPID q) \<and> PPID q \<notin> PID ` set Fl \<longrightarrow>
        IntValue (PPID q) \<in> Value ` set ns2"
      by blast+
    have mono: "\<And>k. \<not> seen1 k \<Longrightarrow> \<not> seen k" using s1 by simp
    have a: "\<forall>n \<in> set ns. \<exists>k. \<not> seen k \<and> branchOf pt k n"
    proof
      fix n assume "n \<in> set ns"
      with ns have "n \<in> set ns1 \<or> n \<in> set ns2" by simp
      then show "\<exists>k. \<not> seen k \<and> branchOf pt k n"
      proof
        assume "n \<in> set ns1"
        with first show ?thesis by blast
      next
        assume "n \<in> set ns2"
        with b2 obtain k where "\<not> seen1 k" "branchOf pt k n" by blast
        with mono show ?thesis by blast
      qed
    qed
    have "Value n1 \<noteq> Value n2" if "n1 \<in> set ns1" "n2 \<in> set ns2" for n1 n2
    proof -
      from that first have v1: "Value n1 = IntValue (PPID p)" by (auto simp: branchOf_def)
      from that b2 obtain k where "\<not> seen1 k" "Value n2 = IntValue k"
        by (auto simp: branchOf_def)
      with first v1 show ?thesis by auto
    qed
    moreover have "distinct (map Value ns1)"
    proof (cases "seen (PPID p)")
      case True
      with one obtain d' where "d = Suc d'" by (cases d) auto
      with one True show ?thesis by simp
    next
      case False
      have own: "\<forall>s \<in> set Fl. PID s = PPID p \<longrightarrow> seen (PPID s)"
        using Cons.prems(2,8) later self isd by auto
      from construct_siblings(1) [OF one Cons.prems(3,4,5,7) False own]
      show ?thesis by auto
    qed
    ultimately have b: "distinct (map Value ns)" using d2 ns by auto
    have c: "\<forall>q \<in> set (filter isDcr (p # ps)). \<not> seen (PPID q) \<and> PPID q \<notin> PID ` set Fl \<longrightarrow>
        IntValue (PPID q) \<in> Value ` set ns"
    proof (intro ballI impI)
      fix q assume q: "q \<in> set (filter isDcr (p # ps))"
        and uu: "\<not> seen (PPID q) \<and> PPID q \<notin> PID ` set Fl"
      then have u: "\<not> seen (PPID q)" and root: "PPID q \<notin> PID ` set Fl" by simp_all
      show "IntValue (PPID q) \<in> Value ` set ns"
      proof (cases "PPID q = PPID p")
        case True
        with u first ns show ?thesis by auto
      next
        case False
        with q isd have qs: "q \<in> set (filter isDcr ps)" by auto
        show ?thesis
        proof (cases "seen1 (PPID q)")
          case True
          with u s1 obtain v where v: "v \<in> set vs1" "fst v = PPID q" by auto
          have "\<not> seen (PPID p)"
          proof
            assume sp: "seen (PPID p)"
            with one obtain d' where "d = Suc d'" by (cases d) auto
            with one sp have "vs1 = []" by simp
            with v show False by simp
          qed
          moreover have own: "\<forall>s \<in> set Fl. PID s = PPID p \<longrightarrow> seen (PPID s)"
            using Cons.prems(2,8) later self isd by auto
          ultimately obtain vs0 where "vs1 = (PPID p, p) # vs0"
            and "\<forall>v \<in> set vs0. fst v = PID (snd v) \<and> snd v \<in> set Fl \<and> \<not> seen (PPID (snd v))"
            using construct_siblings(1) [OF one Cons.prems(3,4,5,7) _ own] by blast
          with v False have "fst v = PID (snd v)" "snd v \<in> set Fl" by auto
          with v root show ?thesis by force
        next
          case False
          with c2 qs ns root show ?thesis by auto
        qed
      qed
    qed
    from a b c show ?thesis by blast
  qed
qed

lemma filter_single:
  "distinct (map f xs) \<Longrightarrow> y \<in> f ` set xs \<Longrightarrow> \<exists>x \<in> set xs. filter (\<lambda>m. f m = y) xs = [x]"
proof (induction xs)
  case Nil
  then show ?case by simp
next
  case (Cons x xs)
  show ?case
  proof (cases "f x = y")
    case True
    with Cons.prems(1) have "filter (\<lambda>m. f m = y) xs = []"
      by (auto simp: filter_empty_conv image_iff)
    with True show ?thesis by simp
  next
    case False
    with Cons show ?thesis by auto
  qed
qed

text \<open>
  A bare number is carried by nodes directly below the top node only, so under the
  conditions of the completeness lemmas a parent identifier that is no record's PID has
  exactly one node in the whole tree.
\<close>

lemma preorder_unfold: "preorder n = n # rendered (Nodes n)"
  by (cases n) (simp add: rendered_def)

lemma filter_rendered_top:
  "\<forall>n \<in> set ns. \<forall>c \<in> set (rendered (Nodes n)). Value c \<noteq> v \<Longrightarrow>
     filter (\<lambda>m. Value m = v) (rendered ns) = filter (\<lambda>m. Value m = v) ns"
proof (induction ns)
  case Nil
  then show ?case by (simp add: rendered_simps)
next
  case (Cons n ns)
  from Cons.prems have "filter (\<lambda>m. Value m = v) (rendered (Nodes n)) = []"
    by (simp add: filter_empty_conv)
  with Cons show ?case by (simp add: rendered_simps preorder_unfold)
qed

lemma one_bare_node:
  assumes run: "displayProcessTree toString d pstree0 ps = Some r"
    and dist: "distinct (map PID (filter isDcr ps))"
    and order: "parentsFirst (filter isDcr ps)"
  shows "\<forall>k \<in> PPID ` set (filter isDcr ps) - PID ` set (filter isDcr ps).
      \<exists>n. filter (\<lambda>m. Value m = IntValue k) (rendered (Nodes (tree r))) = [n] \<and> Meta n = None"
proof
  fix k assume k: "k \<in> PPID ` set (filter isDcr ps) - PID ` set (filter isDcr ps)"
  let ?Fl = "filter isDcr ps"
  let ?pt = "groupByPPID ps Map.empty"
  from run obtain ns where
    loop: "displayLoop d ?pt ps (\<lambda>k. False) = Some (seen_after r, visits r, ns)"
    and t: "tree r = Node None (StrValue ''...'') ns"
    by (rule displayProcessTree_Some)
  have idx: "\<forall>j. bucket ?pt j = filter (\<lambda>p. PPID p = j) ?Fl"
    by (simp add: bucket_groupByPPID bucket_empty)
  have idx': "\<forall>j p. p \<in> set (bucket ?pt j) \<longrightarrow> PPID p = j \<and> p \<in> set ?Fl"
    by (simp add: idx)
  from order have noself: "\<forall>s \<in> set ?Fl. PID s \<noteq> PPID s" by (rule parentsFirst_noself)
  have "parentsMarked (set ?Fl) (\<lambda>k. False)" by (simp add: parentsMarked_def)
  from displayLoop_branches [OF loop _ idx dist noself _ this, of "[]"] order
  have br: "\<forall>n \<in> set ns. \<exists>j. branchOf ?pt j n" and dv: "distinct (map Value ns)"
    and top: "\<forall>p \<in> set ?Fl. PPID p \<notin> PID ` set ?Fl \<longrightarrow> IntValue (PPID p) \<in> Value ` set ns"
    by simp_all
  from top k have "IntValue k \<in> Value ` set ns" by blast
  with dv obtain n where n: "n \<in> set ns" and one: "filter (\<lambda>m. Value m = IntValue k) ns = [n]"
    using filter_single [of Value ns "IntValue k"] by blast
  from br n have bare: "Meta n = None" by (auto simp: branchOf_def)
  have "\<forall>n \<in> set ns. \<forall>c \<in> set (rendered (Nodes n)). Value c \<noteq> IntValue k"
  proof (intro ballI)
    fix n c assume "n \<in> set ns" "c \<in> set (rendered (Nodes n))"
    with displayLoop_shape [OF loop idx'] have "composite (set ?Fl) c" by blast
    then show "Value c \<noteq> IntValue k" by (auto simp: composite_def)
  qed
  then have "filter (\<lambda>m. Value m = IntValue k) (rendered ns) = filter (\<lambda>m. Value m = IntValue k) ns"
    by (rule filter_rendered_top)
  with one bare t show "\<exists>n. filter (\<lambda>m. Value m = IntValue k) (rendered (Nodes (tree r))) = [n] \<and> Meta n = None"
    by simp
qed

section \<open>Termination and single expansion\<close>

text \<open>
  C1. For every list of process records, also one with records that are their own
  parent or with parents in a cycle, \<^verbatim>\<open>displayProcessTree\<close> returns: a call stack of depth
  \<open>2 * length ps + 1\<close> is enough, and any deeper stack gives the same result. In that
  result no key is expanded twice: the keys of the logged calls, which are the calls that
  passed the guard on \<^verbatim>\<open>seen\<close> and went on to iterate the bucket, are pairwise different.
\<close>

theorem render_terminates_each_key_once: "\<exists>r. (\<forall>n. displayProcessTree toString (2 * length ps + 1 + n) pstree0 ps = Some r) \<and>
     distinct (map fst (visits r))"
proof -
  from displayLoop_enough [of ps] obtain seen vs ns where
    run: "displayLoop (2 * length ps + 1) (groupByPPID ps Map.empty) ps (\<lambda>k. False) = Some (seen, vs, ns)"
    by (metis prod_cases3)
  let ?r = "\<lparr>pstree_after = groupByPPID ps Map.empty, seen_after = seen, visits = vs,
             tree = Node None (StrValue ''...'') ns,
             stdout = toString (Node None (StrValue ''...'') ns) @ [CHR 0x0A]\<rparr>"
  have "displayProcessTree toString (2 * length ps + 1 + n) pstree0 ps = Some ?r" for n
    using displayLoop_fuel_mono [OF run, of n] by (simp add: displayProcessTree_def Let_def)
  moreover from displayLoop_seen [OF run] have "distinct (map fst (visits ?r))" by simp
  ultimately show ?thesis by blast
qed

text \<open>
  C1, at a snapshot with a record that is its own parent and two records that are each
  other's parent: three keys are expanded, each once.
\<close>

theorem render_terminates_each_key_once_witness:
  "map_option (map fst \<circ> visits) (displayProcessTree outlineString 7 Map.empty [self5, cyc3, cyc4]) =
     Some [5, 4, 3] \<and>
   (\<exists>r. (\<forall>n. displayProcessTree outlineString (2 * length [self5, cyc3, cyc4] + 1 + n) Map.empty
            [self5, cyc3, cyc4] = Some r) \<and> distinct (map fst (visits r)))"
proof -
  have "map_option (map fst \<circ> visits) (displayProcessTree outlineString 7 Map.empty [self5, cyc3, cyc4]) =
     Some [5, 4, 3]"
    by code_simp
  with render_terminates_each_key_once [of outlineString "[self5, cyc3, cyc4]" Map.empty] show ?thesis by blast
qed

section \<open>How many nodes are rendered\<close>

text \<open>
  The general count: every expansion adds one node, so the nodes below the top node are
  as many as the keys marked; a logged call is on a record of the snapshot under its PPID
  or its PID; and a record has at most one node under its PID.
\<close>

lemma rendered_nodes_general:
  assumes "displayProcessTree toString d pstree0 ps = Some r"
  shows "nodeCount (tree r) = length (visits r) \<and>
     map Value (rendered (Nodes (tree r))) = map visitValue (visits r) \<and>
     distinct (map fst (visits r)) \<and>
     nodeCount (tree r) = card {k. seen_after r k} \<and>
     (\<forall>v \<in> set (visits r). snd v \<in> set ps \<and> isDcr (snd v) \<and>
         (fst v = PPID (snd v) \<or> fst v = PID (snd v))) \<and>
     length (filter (\<lambda>v. snd v = p \<and> fst v \<noteq> PPID p) (visits r)) \<le> 1"
proof -
  from assms obtain ns where
    run: "displayLoop d (groupByPPID ps Map.empty) ps (\<lambda>k. False) = Some (seen_after r, visits r, ns)"
    and t: "tree r = Node None (StrValue ''...'') ns"
    by (rule displayProcessTree_Some)
  from displayLoop_rendered [OF run] have val: "map Value (rendered ns) = map visitValue (visits r)"
    by simp
  then have "length (rendered ns) = length (visits r)" by (metis length_map)
  with t have count: "nodeCount (tree r) = length (visits r)" by (simp add: nodeCount_def)
  from displayLoop_seen [OF run] have dist: "distinct (map fst (visits r))"
    and seen: "{k. seen_after r k} = fst ` set (visits r)" by auto
  from dist have "length (visits r) = card (fst ` set (visits r))" by (rule distinct_card_length)
  with count seen have card: "nodeCount (tree r) = card {k. seen_after r k}" by simp
  from displayLoop_provenance [OF run]
  have prov: "\<forall>v \<in> set (visits r). snd v \<in> set ps \<and> isDcr (snd v) \<and>
     (fst v = PPID (snd v) \<or> fst v = PID (snd v))"
    by (auto simp: bucket_groupByPPID bucket_empty)
  let ?xs = "filter (\<lambda>v. snd v = p \<and> fst v \<noteq> PPID p) (visits r)"
  from dist have "distinct (map fst ?xs)" by (rule distinct_map_filter)
  moreover from prov have "\<forall>v \<in> set ?xs. fst v = PID p" by auto
  ultimately have once: "length ?xs \<le> 1" by (rule distinct_same_key)
  from count val t dist card prov once show ?thesis by simp
qed

text \<open>
  C2, amended. When the records with the prefix have pairwise different PIDs and each
  record's parent, if it is listed, is listed before it, every such record is expanded
  exactly once under its own PID, which gives it one node with the composite label; and
  the nodes below the top node are as many as these records plus the parent identifiers
  that are no record's PID, each of which has one bare node.
\<close>

theorem ordered_snapshot_complete:
  assumes run: "displayProcessTree toString d pstree0 ps = Some r"
    and dist: "distinct (map PID (filter isDcr ps))"
    and order: "parentsFirst (filter isDcr ps)"
  shows "(\<forall>p \<in> set (filter isDcr ps). length (filter (\<lambda>v. v = (PID p, p)) (visits r)) = 1) \<and>
     map Value (rendered (Nodes (tree r))) = map visitValue (visits r) \<and>
     nodeCount (tree r) =
       length (filter isDcr ps) +
       card (PPID ` set (filter isDcr ps) - PID ` set (filter isDcr ps)) \<and>
     (\<forall>k \<in> PPID ` set (filter isDcr ps) - PID ` set (filter isDcr ps).
        \<exists>n. filter (\<lambda>m. Value m = IntValue k) (rendered (Nodes (tree r))) = [n] \<and> Meta n = None)"
proof -
  let ?Fl = "filter isDcr ps"
  let ?pt = "groupByPPID ps Map.empty"
  from run obtain ns where
    loop: "displayLoop d ?pt ps (\<lambda>k. False) = Some (seen_after r, visits r, ns)"
    and t: "tree r = Node None (StrValue ''...'') ns"
    by (rule displayProcessTree_Some)
  have idx: "\<forall>j. bucket ?pt j = filter (\<lambda>p. PPID p = j) ?Fl"
    by (simp add: bucket_groupByPPID bucket_empty)
  from order have noself: "\<forall>s \<in> set ?Fl. PID s \<noteq> PPID s" by (rule parentsFirst_noself)
  have "parentsMarked (set ?Fl) (\<lambda>k. False)" by (simp add: parentsMarked_def)
  from displayLoop_complete [OF loop _ idx dist noself _ this, of "[]"] order
  have marked: "\<forall>p \<in> set ?Fl. seen_after r (PPID p)"
    and rc: "reached (set ?Fl) (\<lambda>k. False) (seen_after r) (visits r)" by simp_all
  from marked rc have every: "\<forall>p \<in> set ?Fl. (PID p, p) \<in> set (visits r)"
    by (simp add: reached_def)
  from displayLoop_seen [OF loop] have dk: "distinct (map fst (visits r))"
    and seen: "\<forall>k. seen_after r k \<longleftrightarrow> k \<in> fst ` set (visits r)" by auto
  from displayLoop_provenance [OF loop]
  have prov: "\<forall>v \<in> set (visits r). snd v \<in> set ?Fl \<and> (fst v = PPID (snd v) \<or> fst v = PID (snd v))"
    by (auto simp: bucket_groupByPPID bucket_empty)
  from displayLoop_rendered [OF loop] have val: "map Value (rendered ns) = map visitValue (visits r)"
    by simp
  then have "length (rendered ns) = length (visits r)" by (metis length_map)
  with t have count: "nodeCount (tree r) = length (visits r)" by (simp add: nodeCount_def)
  have keys: "fst ` set (visits r) = PID ` set ?Fl \<union> PPID ` set ?Fl"
  proof
    show "fst ` set (visits r) \<subseteq> PID ` set ?Fl \<union> PPID ` set ?Fl"
    proof
      fix k assume "k \<in> fst ` set (visits r)"
      then obtain v where "v \<in> set (visits r)" "k = fst v" by auto
      with prov have "snd v \<in> set ?Fl" "k = PPID (snd v) \<or> k = PID (snd v)" by auto
      then show "k \<in> PID ` set ?Fl \<union> PPID ` set ?Fl" by blast
    qed
    show "PID ` set ?Fl \<union> PPID ` set ?Fl \<subseteq> fst ` set (visits r)"
    proof
      fix k assume "k \<in> PID ` set ?Fl \<union> PPID ` set ?Fl"
      then obtain p where p: "p \<in> set ?Fl" and k: "k = PID p \<or> k = PPID p" by blast
      from every p have "PID p \<in> fst ` set (visits r)" by force
      moreover from marked p seen have "PPID p \<in> fst ` set (visits r)" by blast
      ultimately show "k \<in> fst ` set (visits r)" using k by blast
    qed
  qed
  from dk have "length (visits r) = card (fst ` set (visits r))" by (rule distinct_card_length)
  also have "\<dots> = card (PID ` set ?Fl \<union> (PPID ` set ?Fl - PID ` set ?Fl))"
    by (simp add: keys)
  also have "\<dots> = card (PID ` set ?Fl) + card (PPID ` set ?Fl - PID ` set ?Fl)"
    by (rule card_Un_disjoint) auto
  also have "card (PID ` set ?Fl) = length ?Fl"
    using dist by (metis distinct_card length_map set_map)
  finally have total: "length (visits r) =
      length ?Fl + card (PPID ` set ?Fl - PID ` set ?Fl)" .
  from dk have "distinct (visits r)" by (simp add: distinct_map)
  with every have once: "\<forall>p \<in> set ?Fl. length (filter (\<lambda>v. v = (PID p, p)) (visits r)) = 1"
    by (simp add: distinct_count_one)
  from once val t count total
  have "(\<forall>p \<in> set ?Fl. length (filter (\<lambda>v. v = (PID p, p)) (visits r)) = 1) \<and>
     map Value (rendered (Nodes (tree r))) = map visitValue (visits r) \<and>
     nodeCount (tree r) = length ?Fl + card (PPID ` set ?Fl - PID ` set ?Fl)"
    by simp
  with one_bare_node [OF run dist order] show ?thesis by blast
qed

text \<open>
  C2, amended, at the daemon and its wallet with a foreign process between them: two
  records and the parent identifier 0 give three nodes.
\<close>

theorem ordered_snapshot_complete_witness:
  "distinct (map PID (filter isDcr [dcrd1, bash9, wallet2])) \<and>
   parentsFirst (filter isDcr [dcrd1, bash9, wallet2]) \<and>
   map_option visits (displayProcessTree outlineString 4 Map.empty [dcrd1, bash9, wallet2]) =
     Some [(0, dcrd1), (1, dcrd1), (2, wallet2)] \<and>
   map_option (nodeCount \<circ> tree) (displayProcessTree outlineString 4 Map.empty [dcrd1, bash9, wallet2]) =
     Some 3 \<and>
   length (filter isDcr [dcrd1, bash9, wallet2]) +
     card (PPID ` set (filter isDcr [dcrd1, bash9, wallet2]) -
           PID ` set (filter isDcr [dcrd1, bash9, wallet2])) = 3"
proof -
  have d: "distinct (map PID (filter isDcr [dcrd1, bash9, wallet2]))"
    and o: "parentsFirst (filter isDcr [dcrd1, bash9, wallet2])"
    by code_simp+
  have v: "map_option visits (displayProcessTree outlineString 4 Map.empty [dcrd1, bash9, wallet2]) =
     Some [(0, dcrd1), (1, dcrd1), (2, wallet2)]"
    by code_simp
  have n: "map_option (nodeCount \<circ> tree)
      (displayProcessTree outlineString 4 Map.empty [dcrd1, bash9, wallet2]) = Some 3"
    by code_simp
  then obtain r where r: "displayProcessTree outlineString 4 Map.empty [dcrd1, bash9, wallet2] = Some r"
    and c: "nodeCount (tree r) = 3"
    by (auto dest: map_option_SomeD)
  from ordered_snapshot_complete [OF r d o] c
  have "length (filter isDcr [dcrd1, bash9, wallet2]) +
     card (PPID ` set (filter isDcr [dcrd1, bash9, wallet2]) -
           PID ` set (filter isDcr [dcrd1, bash9, wallet2])) = 3"
    by simp
  with d o v n show ?thesis by blast
qed

text \<open>
  C2 as stated fails. The daemon and its wallet are an acyclic snapshot of two records,
  and three nodes are rendered below the top node: the bare node of the parent 0 is the
  third. With the wallet listed first the snapshot is still acyclic and still gives three
  nodes, two of them bare, and the daemon has no node of its own: its PID was marked as
  the wallet's parent before its bucket was iterated.
\<close>

theorem completeness_count_counterexample:
  "acyclicParents [dcrd1, wallet2] \<and> list_all isDcr [dcrd1, wallet2] \<and>
   map_option (nodeCount \<circ> tree) (displayProcessTree outlineString 4 Map.empty [dcrd1, wallet2]) =
     Some 3 \<and>
   length (filter isDcr [dcrd1, wallet2]) = 2 \<and>
   acyclicParents [wallet2, dcrd1] \<and> list_all isDcr [wallet2, dcrd1] \<and>
   map_option tree (displayProcessTree outlineString 4 Map.empty [wallet2, dcrd1]) =
     Some (Node None (StrValue ''...'')
       [Node None (IntValue 1) [Node (Some ''*'') (StrValue ''2 (dcrwallet) {go1.12}'') []],
        Node None (IntValue 0) []]) \<and>
   map_option (nodeCount \<circ> tree) (displayProcessTree outlineString 4 Map.empty [wallet2, dcrd1]) =
     Some 3 \<and>
   length (filter isDcr [wallet2, dcrd1]) = 2"
  by code_simp

section \<open>Labels and markers\<close>

text \<open>
  C3, amended. The bare numeric label is emitted exactly when the key of the call equals
  the PPID of the record, and that is so in the calls made by the loop of
  \<^verbatim>\<open>displayProcessTree\<close> and in no other: every node directly below the top node carries
  the PPID of a record of the snapshot as a bare number, whether or not that record is its
  own parent, and every node further down carries the label
  \<^verbatim>\<open><pid> (<exec>) {<version>}\<close> of a record of the snapshot whose PID differs from its PPID.
\<close>

theorem node_labels:
  assumes "displayProcessTree toString d pstree0 ps = Some r"
  shows "\<forall>n \<in> set (Nodes (tree r)).
     (\<exists>p \<in> set ps. isDcr p \<and> Value n = IntValue (PPID p)) \<and>
     (\<forall>c \<in> set (rendered (Nodes n)). \<exists>p \<in> set ps. isDcr p \<and> PID p \<noteq> PPID p \<and>
        Value c = StrValue (Itoa (PID p) @ '' ('' @ Exec p @ '')'' @ '' {'' @ BuildVersion p @ ''}''))"
proof -
  from assms obtain ns where
    run: "displayLoop d (groupByPPID ps Map.empty) ps (\<lambda>k. False) = Some (seen_after r, visits r, ns)"
    and t: "tree r = Node None (StrValue ''...'') ns"
    by (rule displayProcessTree_Some)
  have idx: "\<forall>j p. p \<in> set (bucket (groupByPPID ps Map.empty) j) \<longrightarrow>
      PPID p = j \<and> p \<in> set (filter isDcr ps)"
    by (simp add: bucket_groupByPPID bucket_empty)
  from displayLoop_shape [OF run idx] t show ?thesis
    unfolding composite_def by simp blast
qed

text \<open>C3, amended, at the daemon and its wallet.\<close>

theorem node_labels_witness:
  "map_option (map Value \<circ> rendered \<circ> Nodes \<circ> tree)
     (displayProcessTree outlineString 4 Map.empty [dcrd1, wallet2]) =
     Some [IntValue 0, StrValue ''1 (dcrd) {go1.12}'', StrValue ''2 (dcrwallet) {go1.12}''] \<and>
   (\<exists>p \<in> set [dcrd1, wallet2]. isDcr p \<and> IntValue 0 = IntValue (PPID p)) \<and>
   (\<exists>p \<in> set [dcrd1, wallet2]. isDcr p \<and> PID p \<noteq> PPID p \<and>
      StrValue ''2 (dcrwallet) {go1.12}'' =
      StrValue (Itoa (PID p) @ '' ('' @ Exec p @ '')'' @ '' {'' @ BuildVersion p @ ''}''))"
proof -
  have ev: "map_option tree (displayProcessTree outlineString 4 Map.empty [dcrd1, wallet2]) =
     Some (Node None (StrValue ''...'')
       [Node None (IntValue 0)
         [Node None (StrValue ''1 (dcrd) {go1.12}'')
           [Node (Some ''*'') (StrValue ''2 (dcrwallet) {go1.12}'') []]]])"
    by code_simp
  then obtain r where r: "displayProcessTree outlineString 4 Map.empty [dcrd1, wallet2] = Some r"
    and t: "tree r = Node None (StrValue ''...'')
       [Node None (IntValue 0)
         [Node None (StrValue ''1 (dcrd) {go1.12}'')
           [Node (Some ''*'') (StrValue ''2 (dcrwallet) {go1.12}'') []]]]"
    by (auto dest: map_option_SomeD)
  from node_labels [OF r] r t show ?thesis
    by (simp add: rendered_def)
qed

text \<open>
  C3 as stated fails: neither the daemon nor its wallet is its own parent, and the first
  node rendered carries the bare number 0.
\<close>

theorem bare_label_counterexample:
  "map_option tree (displayProcessTree outlineString 4 Map.empty [dcrd1, wallet2]) =
     Some (Node None (StrValue ''...'')
       [Node None (IntValue 0)
         [Node None (StrValue ''1 (dcrd) {go1.12}'')
           [Node (Some ''*'') (StrValue ''2 (dcrwallet) {go1.12}'') []]]]) \<and>
   PPID dcrd1 \<noteq> PID dcrd1 \<and> PPID wallet2 \<noteq> PID wallet2"
  by code_simp

text \<open>
  C4, amended. A node with a composite label carries the star if and only if its record
  runs the agent; a node directly below the top node, which carries a bare number, never
  carries the star, whatever the agent flag of the record it was made for.
\<close>

theorem agent_marker:
  assumes "displayProcessTree toString d pstree0 ps = Some r"
  shows "\<forall>n \<in> set (Nodes (tree r)). Meta n = None \<and>
     (\<forall>c \<in> set (rendered (Nodes n)). \<exists>p \<in> set ps. isDcr p \<and> PID p \<noteq> PPID p \<and>
        Value c = StrValue (Itoa (PID p) @ '' ('' @ Exec p @ '')'' @ '' {'' @ BuildVersion p @ ''}'') \<and>
        (Meta c = Some ''*'' \<longleftrightarrow> Agent p) \<and> (Meta c = None \<longleftrightarrow> \<not> Agent p))"
proof -
  from assms obtain ns where
    run: "displayLoop d (groupByPPID ps Map.empty) ps (\<lambda>k. False) = Some (seen_after r, visits r, ns)"
    and t: "tree r = Node None (StrValue ''...'') ns"
    by (rule displayProcessTree_Some)
  have idx: "\<forall>j p. p \<in> set (bucket (groupByPPID ps Map.empty) j) \<longrightarrow>
      PPID p = j \<and> p \<in> set (filter isDcr ps)"
    by (simp add: bucket_groupByPPID bucket_empty)
  have "\<exists>p \<in> set ps. isDcr p \<and> PID p \<noteq> PPID p \<and>
        Value c = StrValue (Itoa (PID p) @ '' ('' @ Exec p @ '')'' @ '' {'' @ BuildVersion p @ ''}'') \<and>
        (Meta c = Some ''*'' \<longleftrightarrow> Agent p) \<and> (Meta c = None \<longleftrightarrow> \<not> Agent p)"
    if "composite (set (filter isDcr ps)) c" for c
    using that unfolding composite_def by auto
  with displayLoop_shape [OF run idx] t show ?thesis
    by simp
qed

text \<open>C4, amended, at the daemon (no agent) and its wallet (agent).\<close>

theorem agent_marker_witness:
  "map_option (map Meta \<circ> rendered \<circ> Nodes \<circ> tree)
     (displayProcessTree outlineString 4 Map.empty [dcrd1, wallet2]) =
     Some [None, None, Some ''*''] \<and>
   (\<exists>p \<in> set [dcrd1, wallet2]. isDcr p \<and> PID p \<noteq> PPID p \<and>
      StrValue ''2 (dcrwallet) {go1.12}'' =
      StrValue (Itoa (PID p) @ '' ('' @ Exec p @ '')'' @ '' {'' @ BuildVersion p @ ''}'') \<and>
      Agent p) \<and>
   (\<exists>p \<in> set [dcrd1, wallet2]. isDcr p \<and> PID p \<noteq> PPID p \<and>
      StrValue ''1 (dcrd) {go1.12}'' =
      StrValue (Itoa (PID p) @ '' ('' @ Exec p @ '')'' @ '' {'' @ BuildVersion p @ ''}'') \<and>
      \<not> Agent p)"
proof -
  have ev: "map_option tree (displayProcessTree outlineString 4 Map.empty [dcrd1, wallet2]) =
     Some (Node None (StrValue ''...'')
       [Node None (IntValue 0)
         [Node None (StrValue ''1 (dcrd) {go1.12}'')
           [Node (Some ''*'') (StrValue ''2 (dcrwallet) {go1.12}'') []]]])"
    by code_simp
  then obtain r where r: "displayProcessTree outlineString 4 Map.empty [dcrd1, wallet2] = Some r"
    and t: "tree r = Node None (StrValue ''...'')
       [Node None (IntValue 0)
         [Node None (StrValue ''1 (dcrd) {go1.12}'')
           [Node (Some ''*'') (StrValue ''2 (dcrwallet) {go1.12}'') []]]]"
    by (auto dest: map_option_SomeD)
  from agent_marker [OF r] r t show ?thesis
    by (simp add: rendered_def)
qed

text \<open>
  C4 as stated fails: a record that runs the agent and is its own parent is rendered as
  one node, the bare number 5, without the star.
\<close>

theorem agent_marker_counterexample:
  "map_option tree (displayProcessTree outlineString 4 Map.empty [self5]) =
     Some (Node None (StrValue ''...'') [Node None (IntValue 5) []]) \<and>
   isDcr self5 \<and> Agent self5"
  by code_simp

section \<open>Records that share a parent\<close>

text \<open>
  C5 says that two records which share a parent identifier are both rendered as siblings
  below its branch, the call of the loop for the first of them rendering every record of
  the bucket. At the snapshot of the wallet, the daemon and the control program, in this
  order, the program does otherwise. The records have pairwise different PIDs and no
  cycle, and the daemon and the control program share the parent 0. The call of the loop
  for the wallet marks the wallet's parent 1, which is the daemon's PID. The call for the
  daemon then expands the bucket of 0, and in it the call on the daemon under its PID 1
  returns at the guard: the daemon gets no node. The tree has the bare branch 1 with the
  wallet and the bare branch 0 with the control program alone.
\<close>

theorem shared_parent_sibling_lost:
  "list_all isDcr [wallet2, dcrd1, ctl3] \<and> distinct (map PID [wallet2, dcrd1, ctl3]) \<and>
   acyclicParents [wallet2, dcrd1, ctl3] \<and>
   PPID dcrd1 = 0 \<and> PPID ctl3 = 0 \<and>
   bucket (groupByPPID [wallet2, dcrd1, ctl3] Map.empty) 0 = [dcrd1, ctl3] \<and>
   map_option tree (displayProcessTree outlineString 4 Map.empty [wallet2, dcrd1, ctl3]) =
     Some (Node None (StrValue ''...'')
       [Node None (IntValue 1) [Node (Some ''*'') (StrValue ''2 (dcrwallet) {go1.12}'') []],
        Node None (IntValue 0) [Node (Some ''*'') (StrValue ''3 (dcrctl) {go1.13.1}'') []]]) \<and>
   map_option visits (displayProcessTree outlineString 4 Map.empty [wallet2, dcrd1, ctl3]) =
     Some [(1, wallet2), (2, wallet2), (0, dcrd1), (3, ctl3)] \<and>
   map_option (snd \<circ> snd)
     (constructProcessTree 4 (groupByPPID [wallet2, dcrd1, ctl3] Map.empty) (PID dcrd1) dcrd1
        ((\<lambda>k. False)(1 := True, 2 := True, 0 := True))) = Some []"
  by code_simp

text \<open>
  What holds when the records of the family have pairwise different PIDs and are listed
  parents first: a parent identifier \<open>k\<close> of some of them that is no record's PID (such
  as 0) has exactly one node directly below the top node, so that the later calls of the
  loop with the key \<open>k\<close> add nothing; the node is bare and unstarred, and its children
  are all the records that report \<open>k\<close> as their parent, in the order of the
  enumeration, each with its composite label, starred exactly when it runs the agent.
\<close>

lemma siblings_below_root_key:
  assumes run: "displayProcessTree toString d pstree0 ps = Some r"
    and dist: "distinct (map PID (filter isDcr ps))"
    and order: "parentsFirst (filter isDcr ps)"
    and a: "a \<in> set (filter isDcr ps)" "PPID a = k"
    and root: "k \<notin> PID ` set (filter isDcr ps)"
  shows "\<exists>n. filter (\<lambda>m. Value m = IntValue k) (Nodes (tree r)) = [n] \<and> Meta n = None \<and>
     map Value (Nodes n) =
       map (\<lambda>s. StrValue (Itoa (PID s) @ '' ('' @ Exec s @ '')'' @ '' {'' @ BuildVersion s @ ''}''))
         (filter (\<lambda>p. PPID p = k) (filter isDcr ps)) \<and>
     map Meta (Nodes n) =
       map (\<lambda>s. if Agent s then Some ''*'' else None) (filter (\<lambda>p. PPID p = k) (filter isDcr ps))"
proof -
  let ?Fl = "filter isDcr ps"
  let ?pt = "groupByPPID ps Map.empty"
  from run obtain ns where
    loop: "displayLoop d ?pt ps (\<lambda>k. False) = Some (seen_after r, visits r, ns)"
    and t: "tree r = Node None (StrValue ''...'') ns"
    by (rule displayProcessTree_Some)
  have idx: "\<forall>j. bucket ?pt j = filter (\<lambda>p. PPID p = j) ?Fl"
    by (simp add: bucket_groupByPPID bucket_empty)
  from order have noself: "\<forall>s \<in> set ?Fl. PID s \<noteq> PPID s" by (rule parentsFirst_noself)
  have "parentsMarked (set ?Fl) (\<lambda>k. False)" by (simp add: parentsMarked_def)
  from displayLoop_branches [OF loop _ idx dist noself _ this, of "[]"] order
  have br: "\<forall>n \<in> set ns. \<exists>j. branchOf ?pt j n" and dv: "distinct (map Value ns)"
    and top: "\<forall>p \<in> set ?Fl. PPID p \<notin> PID ` set ?Fl \<longrightarrow> IntValue (PPID p) \<in> Value ` set ns"
    by simp_all
  from top a root have "IntValue k \<in> Value ` set ns" by blast
  with dv obtain n where n: "n \<in> set ns" and one: "filter (\<lambda>m. Value m = IntValue k) ns = [n]"
    using filter_single [of Value ns "IntValue k"] by blast
  from one have "n \<in> set (filter (\<lambda>m. Value m = IntValue k) ns)" by simp
  then have vn: "Value n = IntValue k" by simp
  from br n obtain j where "branchOf ?pt j n" by blast
  with vn have b: "branchOf ?pt k n" by (auto simp: branchOf_def)
  have lab: "visitValue (PID s, s) =
      StrValue (Itoa (PID s) @ '' ('' @ Exec s @ '')'' @ '' {'' @ BuildVersion s @ ''}'')"
    and star: "visitMeta (PID s, s) = (if Agent s then Some ''*'' else None)"
    if "s \<in> set (filter (\<lambda>p. PPID p = k) ?Fl)" for s
    using that noself by (auto simp: visitValue_def visitMeta_def)
  from b have "Meta n = None"
    and "map Value (Nodes n) = map (\<lambda>s. visitValue (PID s, s)) (filter (\<lambda>p. PPID p = k) ?Fl)"
    and "map Meta (Nodes n) = map (\<lambda>s. visitMeta (PID s, s)) (filter (\<lambda>p. PPID p = k) ?Fl)"
    by (simp_all add: branchOf_def idx)
  with lab star one t show ?thesis by (simp cong: map_cong)
qed

text \<open>
  The same at the daemon and the control program, both below the parent 0, with a
  foreign process and the daemon's wallet in the snapshot.
\<close>

lemma siblings_below_root_key_example:
  "distinct (map PID (filter isDcr [dcrd1, bash9, ctl3, wallet2])) \<and>
   parentsFirst (filter isDcr [dcrd1, bash9, ctl3, wallet2]) \<and>
   dcrd1 \<in> set (filter isDcr [dcrd1, bash9, ctl3, wallet2]) \<and> PPID dcrd1 = 0 \<and>
   ctl3 \<in> set (filter isDcr [dcrd1, bash9, ctl3, wallet2]) \<and> PPID ctl3 = 0 \<and>
   0 \<notin> PID ` set (filter isDcr [dcrd1, bash9, ctl3, wallet2]) \<and>
   map_option tree (displayProcessTree outlineString 4 Map.empty [dcrd1, bash9, ctl3, wallet2]) =
     Some (Node None (StrValue ''...'')
       [Node None (IntValue 0)
         [Node None (StrValue ''1 (dcrd) {go1.12}'')
            [Node (Some ''*'') (StrValue ''2 (dcrwallet) {go1.12}'') []],
          Node (Some ''*'') (StrValue ''3 (dcrctl) {go1.13.1}'') []]]) \<and>
   (\<exists>n. filter (\<lambda>m. Value m = IntValue 0)
          [Node None (IntValue 0)
            [Node None (StrValue ''1 (dcrd) {go1.12}'')
               [Node (Some ''*'') (StrValue ''2 (dcrwallet) {go1.12}'') []],
             Node (Some ''*'') (StrValue ''3 (dcrctl) {go1.13.1}'') []]] = [n] \<and>
        Meta n = None \<and>
        map Value (Nodes n) =
          map (\<lambda>s. StrValue (Itoa (PID s) @ '' ('' @ Exec s @ '')'' @ '' {'' @ BuildVersion s @ ''}''))
            [dcrd1, ctl3] \<and>
        map Meta (Nodes n) = map (\<lambda>s. if Agent s then Some ''*'' else None) [dcrd1, ctl3])"
proof -
  have d: "distinct (map PID (filter isDcr [dcrd1, bash9, ctl3, wallet2]))"
    and o: "parentsFirst (filter isDcr [dcrd1, bash9, ctl3, wallet2])"
    and a: "dcrd1 \<in> set (filter isDcr [dcrd1, bash9, ctl3, wallet2])" "PPID dcrd1 = 0"
    and b: "ctl3 \<in> set (filter isDcr [dcrd1, bash9, ctl3, wallet2])" "PPID ctl3 = 0"
    and root: "0 \<notin> PID ` set (filter isDcr [dcrd1, bash9, ctl3, wallet2])"
    by code_simp+
  have f: "filter (\<lambda>p. PPID p = 0) (filter isDcr [dcrd1, bash9, ctl3, wallet2]) = [dcrd1, ctl3]"
    by code_simp
  have ev: "map_option tree (displayProcessTree outlineString 4 Map.empty [dcrd1, bash9, ctl3, wallet2]) =
     Some (Node None (StrValue ''...'')
       [Node None (IntValue 0)
         [Node None (StrValue ''1 (dcrd) {go1.12}'')
            [Node (Some ''*'') (StrValue ''2 (dcrwallet) {go1.12}'') []],
          Node (Some ''*'') (StrValue ''3 (dcrctl) {go1.13.1}'') []]])"
    by code_simp
  then obtain r where r: "displayProcessTree outlineString 4 Map.empty [dcrd1, bash9, ctl3, wallet2] = Some r"
    and t: "tree r = Node None (StrValue ''...'')
       [Node None (IntValue 0)
         [Node None (StrValue ''1 (dcrd) {go1.12}'')
            [Node (Some ''*'') (StrValue ''2 (dcrwallet) {go1.12}'') []],
          Node (Some ''*'') (StrValue ''3 (dcrctl) {go1.13.1}'') []]]"
    by (auto dest: map_option_SomeD)
  from siblings_below_root_key [OF r d o a root] have "\<exists>n. filter (\<lambda>m. Value m = IntValue 0)
          [Node None (IntValue 0)
            [Node None (StrValue ''1 (dcrd) {go1.12}'')
               [Node (Some ''*'') (StrValue ''2 (dcrwallet) {go1.12}'') []],
             Node (Some ''*'') (StrValue ''3 (dcrctl) {go1.13.1}'') []]] = [n] \<and>
        Meta n = None \<and>
        map Value (Nodes n) =
          map (\<lambda>s. StrValue (Itoa (PID s) @ '' ('' @ Exec s @ '')'' @ '' {'' @ BuildVersion s @ ''}''))
            [dcrd1, ctl3] \<and>
        map Meta (Nodes n) = map (\<lambda>s. if Agent s then Some ''*'' else None) [dcrd1, ctl3]"
    unfolding t f by simp
  with d o a b root ev show ?thesis by blast
qed

text \<open>
  The two calls of the loop, for a snapshot of just two such records: the first adds the
  branch with both children, the second returns at the guard with \<^verbatim>\<open>seen\<close> unchanged.
\<close>

lemma two_siblings_calls:
  assumes "HasPrefix (Exec a) dcrPrefix" "HasPrefix (Exec b) dcrPrefix"
    and "PPID a = k" "PPID b = k" "PID a \<noteq> k" "PID b \<noteq> k" "PID a \<noteq> PID b"
  shows "\<exists>r seen1. displayProcessTree toString (3 + n) pstree0 [a, b] = Some r \<and>
     tree r = Node None (StrValue ''...'')
       [Node None (IntValue k) [newBranch (PID a) a [], newBranch (PID b) b []]] \<and>
     constructProcessTree (3 + n) (groupByPPID [a, b] Map.empty) (PPID a) a (\<lambda>k. False) =
       Some (seen1, [(k, a), (PID a, a), (PID b, b)],
             [Node None (IntValue k) [newBranch (PID a) a [], newBranch (PID b) b []]]) \<and>
     constructProcessTree (3 + n) (groupByPPID [a, b] Map.empty) (PPID b) b seen1 = Some (seen1, [], [])"
proof -
  let ?pt = "groupByPPID [a, b] Map.empty"
  have three: "3 + n = Suc (Suc (Suc n))" by simp
  have bk: "bucket ?pt k = [a, b]" and ba: "bucket ?pt (PID a) = []" and bb: "bucket ?pt (PID b) = []"
    using assms by (simp_all add: bucket_def)
  show ?thesis
    unfolding three displayProcessTree_def using assms bk ba bb
    by (simp add: Let_def newBranch_def)
qed

section \<open>Determinism\<close>

text \<open>
  C7. Two runs of \<^verbatim>\<open>displayProcessTree\<close> on the same enumeration write the same bytes,
  whatever the package variable \<^verbatim>\<open>pstree\<close> held before each run (the second run may start
  from what the first left there) and whatever stack depth each run had at hand: the
  function builds \<^verbatim>\<open>pstree\<close> and \<^verbatim>\<open>seen\<close> afresh and ranges over slices only.
\<close>

theorem render_deterministic:
  assumes "displayProcessTree toString d pstree0 ps = Some r"
    and "displayProcessTree toString d' pstree1 ps = Some r'"
  shows "stdout r' = stdout r \<and> tree r' = tree r \<and> pstree_after r' = pstree_after r"
proof -
  from assms(1) obtain ns where
    run: "displayLoop d (groupByPPID ps Map.empty) ps (\<lambda>k. False) = Some (seen_after r, visits r, ns)"
    and t: "tree r = Node None (StrValue ''...'') ns"
    and g: "pstree_after r = groupByPPID ps Map.empty"
    and out: "stdout r = toString (tree r) @ [CHR 0x0A]"
    by (rule displayProcessTree_Some)
  from assms(2) obtain ns' where
    run': "displayLoop d' (groupByPPID ps Map.empty) ps (\<lambda>k. False) = Some (seen_after r', visits r', ns')"
    and t': "tree r' = Node None (StrValue ''...'') ns'"
    and g': "pstree_after r' = groupByPPID ps Map.empty"
    and out': "stdout r' = toString (tree r') @ [CHR 0x0A]"
    by (rule displayProcessTree_Some)
  from displayLoop_fuel_mono [OF run, of d'] displayLoop_fuel_mono [OF run', of d]
  have "ns' = ns" by (simp add: add.commute)
  with t t' g g' out out' show ?thesis by simp
qed

lemma displayProcessTree_global:
  "displayProcessTree toString d pstree0 ps = displayProcessTree toString d pstree1 ps"
  by (simp add: displayProcessTree_def)

text \<open>C7, at the daemon and its wallet, the second run starting from the first run's index.\<close>

theorem render_deterministic_witness:
  "\<exists>r r'. displayProcessTree outlineString 4 Map.empty [dcrd1, wallet2] = Some r \<and>
     displayProcessTree outlineString 9 (pstree_after r) [dcrd1, wallet2] = Some r' \<and>
     stdout r' = stdout r \<and>
     stdout r = ''...'' @ [CHR 0x0A] @ ''  0'' @ [CHR 0x0A] @ ''    1 (dcrd) {go1.12}'' @ [CHR 0x0A] @
                ''      [*]  2 (dcrwallet) {go1.12}'' @ [CHR 0x0A] @ [CHR 0x0A]"
proof -
  have "map_option stdout (displayProcessTree outlineString 4 Map.empty [dcrd1, wallet2]) =
     Some (''...'' @ [CHR 0x0A] @ ''  0'' @ [CHR 0x0A] @ ''    1 (dcrd) {go1.12}'' @ [CHR 0x0A] @
                ''      [*]  2 (dcrwallet) {go1.12}'' @ [CHR 0x0A] @ [CHR 0x0A])"
    by code_simp
  then obtain r where r: "displayProcessTree outlineString 4 Map.empty [dcrd1, wallet2] = Some r"
    and out: "stdout r = ''...'' @ [CHR 0x0A] @ ''  0'' @ [CHR 0x0A] @ ''    1 (dcrd) {go1.12}'' @ [CHR 0x0A] @
                ''      [*]  2 (dcrwallet) {go1.12}'' @ [CHR 0x0A] @ [CHR 0x0A]"
    by (auto dest: map_option_SomeD)
  have "map_option tree (displayProcessTree outlineString 9 Map.empty [dcrd1, wallet2]) \<noteq> None"
    by code_simp
  then obtain r' where "displayProcessTree outlineString 9 Map.empty [dcrd1, wallet2] = Some r'"
    by auto
  then have r': "displayProcessTree outlineString 9 (pstree_after r) [dcrd1, wallet2] = Some r'"
    by (simp only: displayProcessTree_global [of _ _ "pstree_after r" _ Map.empty])
  from render_deterministic [OF r r'] r r' out show ?thesis by blast
qed

section \<open>List mode\<close>


lemma gomax_max: "gomax i j = max i j"
  by (simp add: gomax_def max_def)

lemma widthLoop_Max:
  "maxPID (widthLoop ps w) = Max (insert (maxPID w) ((\<lambda>p. len (Itoa (PID p))) ` set ps))
   \<and> maxPPID (widthLoop ps w) = Max (insert (maxPPID w) ((\<lambda>p. len (Itoa (PPID p))) ` set ps))
   \<and> maxExec (widthLoop ps w) = Max (insert (maxExec w) ((\<lambda>p. len (Exec p)) ` set ps))
   \<and> maxVersion (widthLoop ps w) = Max (insert (maxVersion w) ((\<lambda>p. len (BuildVersion p)) ` set ps))"
proof (induction ps arbitrary: w)
  case Nil
  then show ?case by simp
next
  case (Cons p ps)
  have step: "Max (insert (max a b) S) = Max (insert a (insert b S))" if "finite S" for a b :: int and S
    using that by (cases "S = {}") (simp_all add: max.assoc)
  show ?case
    by (simp add: Cons.IH gomax_max step)
qed

text \<open>
  C8. In list mode every row is printed with the one format string made from the four
  widths, and each width is the largest length of that column's values over the records
  with the prefix (0 when there is none), so no value is longer than its column.
\<close>

theorem column_widths:
  assumes "dcrPs = filter isDcr ps" "w = columnWidths dcrPs"
  shows "(\<forall>c \<in> set (processes ps). fst c = fmtString w) \<and>
     maxPID w = Max (insert 0 ((\<lambda>p. len (Itoa (PID p))) ` set dcrPs)) \<and>
     maxPPID w = Max (insert 0 ((\<lambda>p. len (Itoa (PPID p))) ` set dcrPs)) \<and>
     maxExec w = Max (insert 0 ((\<lambda>p. len (Exec p)) ` set dcrPs)) \<and>
     maxVersion w = Max (insert 0 ((\<lambda>p. len (BuildVersion p)) ` set dcrPs)) \<and>
     (\<forall>p \<in> set dcrPs. len (Itoa (PID p)) \<le> maxPID w \<and> len (Itoa (PPID p)) \<le> maxPPID w \<and>
        len (Exec p) \<le> maxExec w \<and> len (BuildVersion p) \<le> maxVersion w)"
proof -
  have filt: "filter (\<lambda>p. HasPrefix (Exec p) dcrPrefix) ps = dcrPs"
    using assms(1) by (simp add: isDcr_def [abs_def])
  have fmt: "\<forall>c \<in> set (processes ps). fst c = fmtString w"
    using assms(2) by (auto simp: processes_def Let_def filt)
  note m = widthLoop_Max [of dcrPs "\<lparr>maxPID = 0, maxPPID = 0, maxExec = 0, maxVersion = 0\<rparr>",
      folded columnWidths_def, folded assms(2), simplified]
  have le: "\<forall>p \<in> set dcrPs. len (Itoa (PID p)) \<le> maxPID w \<and> len (Itoa (PPID p)) \<le> maxPPID w \<and>
        len (Exec p) \<le> maxExec w \<and> len (BuildVersion p) \<le> maxVersion w"
    using m by (auto intro!: Max_ge)
  from fmt m le show ?thesis by simp
qed

text \<open>C8, at a snapshot whose records of the family have the PIDs 7 and 1234: the width is 4.\<close>

theorem column_widths_witness:
  "maxPID (columnWidths (filter isDcr [dcrd7, bash9, dcrctl1234])) = 4 \<and>
   map fst (processes [dcrd7, bash9, dcrctl1234]) =
     [''%4d %1d %6s %1s %8s %s'' @ [CHR 0x0A], ''%4d %1d %6s %1s %8s %s'' @ [CHR 0x0A]]"
proof -
  have w: "columnWidths (filter isDcr [dcrd7, bash9, dcrctl1234]) =
      \<lparr>maxPID = 4, maxPPID = 1, maxExec = 6, maxVersion = 8\<rparr>"
    by code_simp
  have p: "map fst (processes [dcrd7, bash9, dcrctl1234]) =
      [fmtString (columnWidths (filter isDcr [dcrd7, bash9, dcrctl1234])),
       fmtString (columnWidths (filter isDcr [dcrd7, bash9, dcrctl1234]))]"
    by code_simp
  have f: "fmtString \<lparr>maxPID = 4, maxPPID = 1, maxExec = 6, maxVersion = 8\<rparr> = ''%4d %1d %6s %1s %8s %s'' @ [CHR 0x0A]"
    by code_simp
  from column_widths [OF refl refl, of "[dcrd7, bash9, dcrctl1234]"] w p f show ?thesis
    by simp
qed

section \<open>The command line\<close>


lemma Atoi_help: "Atoi ''help'' = None"
  by (simp add: Atoi_def isDigit_def)

text \<open>
  C9. When the first argument is \<^verbatim>\<open>help\<close>, or is no number, not \<^verbatim>\<open>tree\<close>, no command and
  no name of the table, the program writes the help text and a newline to standard error
  and exits with status 1; in the second case it first writes the line
  \<^verbatim>\<open>dcrps: unknown subcommand\<close> to standard output.
\<close>

theorem usage_error:
  assumes "2 \<le> length args"
    and "args ! 1 = ''help'' \<or>
         (Atoi (args ! 1) = None \<and> args ! 1 \<noteq> ''tree'' \<and> cmds (args ! 1) = None \<and>
          nameToPid (args ! 1) = None)"
  shows "main cmds targetToAddr nameToPid args =
     (if args ! 1 = ''help'' then [] else [Stdout (''dcrps: unknown subcommand'' @ [CHR 0x0A])]) @
     [Stderr (helpText @ [CHR 0x0A]), Exit 1]"
  using assms by (auto simp: main_def usage_def Let_def Atoi_help)

text \<open>C9, at the arguments \<^verbatim>\<open>help\<close> and \<^verbatim>\<open>bogus 1\<close>.\<close>

theorem usage_error_witness:
  "main Map.empty Inl Map.empty [''dcrps'', ''help''] = [Stderr (helpText @ [CHR 0x0A]), Exit 1] \<and>
   main Map.empty Inl (init_nameToPid [dcrd7]) [''dcrps'', ''bogus'', ''1''] =
     [Stdout (''dcrps: unknown subcommand'' @ [CHR 0x0A]), Stderr (helpText @ [CHR 0x0A]), Exit 1]"
proof -
  have a: "Atoi ''bogus'' = None" by (simp add: Atoi_def isDigit_def)
  have n: "init_nameToPid [dcrd7] ''bogus'' = None"
    by (simp add: init_nameToPid_def dcrd7_def HasPrefix_def dcrPrefix_def)
  from usage_error [of "[''dcrps'', ''help'']" Map.empty Map.empty Inl]
    usage_error [of "[''dcrps'', ''bogus'', ''1'']" Map.empty "init_nameToPid [dcrd7]" Inl] a n
  show ?thesis by simp
qed

section \<open>The name table\<close>


lemma initLoop_step:
  "\<exists>m'. initLoop (p # ps) m = initLoop ps m' \<and>
     m' name = (if HasPrefix (Exec p) dcrPrefix \<and> Exec p = name
                then (if m name = None then Some (PID p) else Some (- 1)) else m name)"
proof (cases "HasPrefix (Exec p) dcrPrefix")
  case False
  then show ?thesis by (intro exI [of _ m]) simp
next
  case True
  show ?thesis
  proof (cases "m (Exec p)")
    case None
    with True show ?thesis by (intro exI [of _ "m(Exec p \<mapsto> PID p)"]) auto
  next
    case (Some found)
    with True show ?thesis by (intro exI [of _ "m(Exec p \<mapsto> - 1)"]) auto
  qed
qed

lemma initLoop_stays:
  "m name = Some (- 1) \<Longrightarrow> initLoop ps m name = Some (- 1)"
proof (induction ps arbitrary: m)
  case Nil
  then show ?case by simp
next
  case (Cons p ps)
  from initLoop_step [of p ps m name] obtain m' where
    step: "initLoop (p # ps) m = initLoop ps m'" and
    val: "m' name = (if HasPrefix (Exec p) dcrPrefix \<and> Exec p = name
                then (if m name = None then Some (PID p) else Some (- 1)) else m name)"
    by blast
  from val Cons.prems have "m' name = Some (- 1)" by auto
  from Cons.IH [of m', OF this] step show ?case by (simp only:)
qed

lemma initLoop_found:
  "m name = Some v \<Longrightarrow> \<exists>p \<in> set ps. HasPrefix (Exec p) dcrPrefix \<and> Exec p = name \<Longrightarrow>
     initLoop ps m name = Some (- 1)"
proof (induction ps arbitrary: m v)
  case Nil
  then show ?case by simp
next
  case (Cons p ps)
  from initLoop_step [of p ps m name] obtain m' where
    step: "initLoop (p # ps) m = initLoop ps m'" and
    val: "m' name = (if HasPrefix (Exec p) dcrPrefix \<and> Exec p = name
                then (if m name = None then Some (PID p) else Some (- 1)) else m name)"
    by blast
  show ?case
  proof (cases "HasPrefix (Exec p) dcrPrefix \<and> Exec p = name")
    case True
    with val Cons.prems(1) have "m' name = Some (- 1)" by auto
    from initLoop_stays [of m' name ps, OF this] step show ?thesis by (simp only:)
  next
    case False
    with Cons.prems(2) have ex: "\<exists>p \<in> set ps. HasPrefix (Exec p) dcrPrefix \<and> Exec p = name" by auto
    from val False Cons.prems(1) have "m' name = Some v" by auto
    from Cons.IH [of m' v, OF this ex] step show ?thesis by (simp only:)
  qed
qed

lemma initLoop_twice:
  "m name = None \<Longrightarrow> 2 \<le> length (filter (\<lambda>p. HasPrefix (Exec p) dcrPrefix \<and> Exec p = name) ps) \<Longrightarrow>
     initLoop ps m name = Some (- 1)"
proof (induction ps arbitrary: m)
  case Nil
  then show ?case by simp
next
  case (Cons p ps)
  from initLoop_step [of p ps m name] obtain m' where
    step: "initLoop (p # ps) m = initLoop ps m'" and
    val: "m' name = (if HasPrefix (Exec p) dcrPrefix \<and> Exec p = name
                then (if m name = None then Some (PID p) else Some (- 1)) else m name)"
    by blast
  show ?case
  proof (cases "HasPrefix (Exec p) dcrPrefix \<and> Exec p = name")
    case True
    with Cons.prems(2) have "filter (\<lambda>p. HasPrefix (Exec p) dcrPrefix \<and> Exec p = name) ps \<noteq> []"
      by auto
    then have ex: "\<exists>p \<in> set ps. HasPrefix (Exec p) dcrPrefix \<and> Exec p = name"
      by (simp add: filter_empty_conv)
    from val True Cons.prems(1) have "m' name = Some (PID p)" by auto
    from initLoop_found [of m' name "PID p" ps, OF this ex] step show ?thesis by (simp only:)
  next
    case False
    with Cons.prems(2) have two: "2 \<le> length (filter (\<lambda>p. HasPrefix (Exec p) dcrPrefix \<and> Exec p = name) ps)"
      by auto
    from val False Cons.prems(1) have "m' name = None" by auto
    from Cons.IH [of m', OF this two] step show ?thesis by (simp only:)
  qed
qed

lemma Atoi_dcr: "HasPrefix name dcrPrefix \<Longrightarrow> Atoi name = None"
  by (cases name) (auto simp: Atoi_def HasPrefix_def dcrPrefix_def isDigit_def Let_def)

text \<open>
  C10. When two or more enumerated processes of the family have the executable name
  \<open>name\<close>, the table built at start-up maps \<open>name\<close> to \<open>-1\<close>, and the program called
  with \<open>name\<close> as its only argument (no command has that name) calls
  \<^verbatim>\<open>processInfo(-1)\<close> and nothing else.
\<close>

theorem duplicate_name_is_minus_one:
  assumes "2 \<le> length (filter (\<lambda>p. HasPrefix (Exec p) dcrPrefix \<and> Exec p = name) ps)"
    and "cmds name = None"
  shows "init_nameToPid ps name = Some (- 1) \<and>
     main cmds targetToAddr (init_nameToPid ps) [prog, name] = [CallProcessInfo (- 1)]"
proof -
  from assms(1) have "filter (\<lambda>p. HasPrefix (Exec p) dcrPrefix \<and> Exec p = name) ps \<noteq> []" by auto
  then have "\<exists>p \<in> set ps. HasPrefix (Exec p) dcrPrefix \<and> Exec p = name"
    by (simp add: filter_empty_conv)
  then have pre: "HasPrefix name dcrPrefix" by auto
  then have no: "name \<noteq> ''help''" "name \<noteq> ''tree''"
    by (auto simp: HasPrefix_def dcrPrefix_def)
  have tab: "init_nameToPid ps name = Some (- 1)"
    unfolding init_nameToPid_def by (rule initLoop_twice [OF _ assms(1)]) simp
  with assms(2) no Atoi_dcr [OF pre] show ?thesis
    by (simp add: main_def Let_def)
qed

text \<open>C10, at two daemons with a foreign process between them.\<close>

theorem duplicate_name_is_minus_one_witness:
  "init_nameToPid [dcrd1, bash9, dcrd7] ''dcrd'' = Some (- 1) \<and>
   main Map.empty Inl (init_nameToPid [dcrd1, bash9, dcrd7]) [''dcrps'', ''dcrd''] = [CallProcessInfo (- 1)]"
proof -
  have "2 \<le> length (filter (\<lambda>p. HasPrefix (Exec p) dcrPrefix \<and> Exec p = ''dcrd'') [dcrd1, bash9, dcrd7])"
    by (simp add: dcrd1_def bash9_def dcrd7_def HasPrefix_def dcrPrefix_def)
  from duplicate_name_is_minus_one [OF this, of Map.empty Inl "''dcrps''"] show ?thesis by simp
qed

end
